theory Spec2Isabelle
  imports Main "HOL-Library.Monad_Syntax"
begin

section \<open>The heap of nodes\<close>

text \<open>
  A shallow embedding of \<^verbatim>\<open>src/linked_hashmap.hpp\<close> (namespace sjtu).
  A \<^verbatim>\<open>Node*\<close> is an optional address, \<^verbatim>\<open>nullptr\<close> being \<open>None\<close>.
  The free store is an arena of cells: \<^verbatim>\<open>new Node\<close> takes the next
  address, \<^verbatim>\<open>delete\<close> empties the cell. Every function that dereferences a
  pointer returns an \<open>option\<close>; \<open>None\<close> stands for undefined behaviour (a null
  or dangling dereference, an out-of-range array read, a remainder by zero)
  and for a loop that does not end.
\<close>

type_synonym addr = nat
type_synonym ptr = "addr option"

record ('k, 'v) Node =
  data :: "'k \<times> 'v"
  "next" :: ptr
  prev :: ptr
  list_next :: ptr
  list_prev :: ptr

type_synonym ('k, 'v) heap = "('k, 'v) Node option list"

definition lookup :: "('k, 'v) heap \<Rightarrow> addr \<Rightarrow> ('k, 'v) Node option" where
  "lookup h a = (if a < length h then h ! a else None)"

text \<open>The constructor \<^verbatim>\<open>Node(const pair&)\<close>: all four links are null.\<close>

definition new_Node :: "'k \<times> 'v \<Rightarrow> ('k, 'v) Node" where
  "new_Node val = \<lparr>data = val, next = None, prev = None, list_next = None, list_prev = None\<rparr>"

definition alloc :: "('k, 'v) heap \<Rightarrow> ('k, 'v) Node \<Rightarrow> ('k, 'v) heap \<times> addr" where
  "alloc h nd = (h @ [Some nd], length h)"

definition free :: "('k, 'v) heap \<Rightarrow> addr \<Rightarrow> ('k, 'v) heap option" where
  "free h a = (case lookup h a of None \<Rightarrow> None | Some nd \<Rightarrow> Some (h[a := None]))"

text \<open>A write through a pointer, \<^verbatim>\<open>p->field = x\<close>.\<close>

definition modify :: "('k, 'v) heap \<Rightarrow> addr \<Rightarrow> (('k, 'v) Node \<Rightarrow> ('k, 'v) Node) \<Rightarrow> ('k, 'v) heap option" where
  "modify h a f = (case lookup h a of None \<Rightarrow> None | Some nd \<Rightarrow> Some (h[a := Some (f nd)]))"

section \<open>The container\<close>

text \<open>
  The data members of \<^verbatim>\<open>linked_hashmap\<close>. The bucket array is kept by value
  (each container owns the array it allocated). The \<^verbatim>\<open>size_t\<close> counters are
  natural numbers, \<^verbatim>\<open>size_t\<close> being 64 bits wide. An increment wraps only at a
  count of \<open>2 ^ 64 - 1\<close> and a doubling only at a capacity of \<open>2 ^ 63\<close>; a
  container whose count is the number of its nodes gets there only with more
  nodes or buckets than the address space holds, and this is not modelled.
  The decrement in \<^verbatim>\<open>erase\<close> wraps at zero, and that is written out. The
  template parameter \<^verbatim>\<open>Hash\<close> is the argument
  \<open>hasher\<close> of every operation that hashes, \<^verbatim>\<open>Equal\<close> is its default
  \<^verbatim>\<open>std::equal_to<Key>\<close>, that is equality. Allocation does not fail, so the
  \<^verbatim>\<open>catch\<close> block of the copy constructor has no counterpart. The address of
  a container, \<^verbatim>\<open>this\<close>, is an argument of the operations that make or check
  iterators.
\<close>

record linked_hashmap =
  buckets :: "ptr list"
  bucket_count :: nat
  element_count :: nat
  head :: ptr
  tail :: ptr

type_synonym ('k, 'v) state = "('k, 'v) heap \<times> linked_hashmap"

definition INITIAL_CAPACITY :: nat where
  "INITIAL_CAPACITY = 16"

text \<open>The largest \<^verbatim>\<open>size_t\<close>, \<open>2 ^ 64 - 1\<close>.\<close>

definition SIZE_MAX :: nat where
  "SIZE_MAX = 18446744073709551615"

datatype error = index_out_of_bound | invalid_iterator

text \<open>An array read \<^verbatim>\<open>buckets[i]\<close>.\<close>

definition bucket_at :: "ptr list \<Rightarrow> nat \<Rightarrow> ptr option" where
  "bucket_at bs i = (if i < length bs then Some (bs ! i) else None)"

definition hash_index :: "('k \<Rightarrow> nat) \<Rightarrow> linked_hashmap \<Rightarrow> 'k \<Rightarrow> nat option" where
  "hash_index hasher m key =
     (if bucket_count m = 0 then None else Some (hasher key mod bucket_count m))"

text \<open>
  The body of the inner \<^verbatim>\<open>while (current)\<close> loop of \<^verbatim>\<open>rehash\<close>: the node
  is pushed on the front of its new chain.
\<close>

partial_function (option) rehash_chain ::
  "('k \<Rightarrow> nat) \<Rightarrow> nat \<Rightarrow> ('k, 'v) heap \<times> ptr list \<Rightarrow> ptr \<Rightarrow> (('k, 'v) heap \<times> ptr list) option" where
  "rehash_chain hasher new_capacity s current =
     (case current of
        None \<Rightarrow> Some s
      | Some c \<Rightarrow>
          (case s of (h, new_buckets) \<Rightarrow>
             do {
               nd \<leftarrow> lookup h c;
               new_index \<leftarrow> (if new_capacity = 0 then None
                              else Some (hasher (fst (data nd)) mod new_capacity));
               nb \<leftarrow> bucket_at new_buckets new_index;
               h1 \<leftarrow> modify h c (\<lambda>n. n\<lparr>next := nb\<rparr>);
               h2 \<leftarrow> (case nb of None \<Rightarrow> Some h1
                       | Some b \<Rightarrow> modify h1 b (\<lambda>n. n\<lparr>prev := Some c\<rparr>));
               h3 \<leftarrow> modify h2 c (\<lambda>n. n\<lparr>prev := None\<rparr>);
               rehash_chain hasher new_capacity (h3, new_buckets[new_index := Some c]) (next nd)
             }))"

declare rehash_chain.simps [code]

text \<open>The outer \<^verbatim>\<open>for (i = 0; i < bucket_count; ++i)\<close> loop of \<^verbatim>\<open>rehash\<close>.\<close>

function rehash_from ::
  "('k \<Rightarrow> nat) \<Rightarrow> nat \<Rightarrow> linked_hashmap \<Rightarrow> nat \<Rightarrow> ('k, 'v) heap \<times> ptr list \<Rightarrow> (('k, 'v) heap \<times> ptr list) option" where
  "rehash_from hasher new_capacity m i s =
     (if i < bucket_count m then
        do {
          current \<leftarrow> bucket_at (buckets m) i;
          s' \<leftarrow> rehash_chain hasher new_capacity s current;
          rehash_from hasher new_capacity m (i + 1) s'
        }
      else Some s)"
  by pat_completeness auto
termination
  by (relation "measure (\<lambda>(hasher, new_capacity, m, i, s). bucket_count m - i)") auto

definition rehash :: "('k \<Rightarrow> nat) \<Rightarrow> nat \<Rightarrow> ('k, 'v) state \<Rightarrow> ('k, 'v) state option" where
  "rehash hasher new_capacity s =
     (case s of (h, m) \<Rightarrow>
        do {
          (h', new_buckets) \<leftarrow> rehash_from hasher new_capacity m 0 (h, replicate new_capacity None);
          Some (h', m\<lparr>buckets := new_buckets, bucket_count := new_capacity\<rparr>)
        })"

text \<open>
  \<^verbatim>\<open>element_count >= bucket_count * LOAD_FACTOR\<close> with \<^verbatim>\<open>LOAD_FACTOR = 0.75\<close>:
  the product is exact in double precision for every count a machine can hold,
  so the test is \<open>3 * bucket_count \<le> 4 * element_count\<close>.
\<close>

definition ensure_capacity :: "('k \<Rightarrow> nat) \<Rightarrow> ('k, 'v) state \<Rightarrow> ('k, 'v) state option" where
  "ensure_capacity hasher s =
     (case s of (h, m) \<Rightarrow>
        if 3 * bucket_count m \<le> 4 * element_count m
        then rehash hasher (bucket_count m * 2) (h, m)
        else Some (h, m))"

section \<open>Iterators\<close>

text \<open>
  Both iterator classes hold the current node and the address of the container
  that made them.
\<close>

datatype iterator = iterator (current: ptr) (container: "nat option")

datatype const_iterator = const_iterator (c_current: ptr) (c_container: "nat option")

text \<open>\<^verbatim>\<open>++iter\<close> and \<^verbatim>\<open>--iter\<close>: the new value of the iterator.\<close>

definition iterator_inc :: "('k, 'v) heap \<Rightarrow> iterator \<Rightarrow> iterator option" where
  "iterator_inc h it =
     (case current it of
        None \<Rightarrow> Some it
      | Some a \<Rightarrow> do { nd \<leftarrow> lookup h a; Some (iterator (list_next nd) (container it)) })"

definition iterator_dec :: "('k, 'v) heap \<Rightarrow> iterator \<Rightarrow> iterator option" where
  "iterator_dec h it =
     (case current it of
        None \<Rightarrow> Some it
      | Some a \<Rightarrow> do { nd \<leftarrow> lookup h a; Some (iterator (list_prev nd) (container it)) })"

text \<open>\<^verbatim>\<open>iter++\<close> and \<^verbatim>\<open>iter--\<close>: the new value of the iterator and the returned copy.\<close>

definition iterator_post_inc :: "('k, 'v) heap \<Rightarrow> iterator \<Rightarrow> (iterator \<times> iterator) option" where
  "iterator_post_inc h it =
     (let temp = it in
      case current it of
        None \<Rightarrow> Some (it, temp)
      | Some a \<Rightarrow> do { nd \<leftarrow> lookup h a; Some (iterator (list_next nd) (container it), temp) })"

definition iterator_post_dec :: "('k, 'v) heap \<Rightarrow> iterator \<Rightarrow> (iterator \<times> iterator) option" where
  "iterator_post_dec h it =
     (let temp = it in
      case current it of
        None \<Rightarrow> Some (it, temp)
      | Some a \<Rightarrow> do { nd \<leftarrow> lookup h a; Some (iterator (list_prev nd) (container it), temp) })"

definition const_iterator_inc :: "('k, 'v) heap \<Rightarrow> const_iterator \<Rightarrow> const_iterator option" where
  "const_iterator_inc h it =
     (case c_current it of
        None \<Rightarrow> Some it
      | Some a \<Rightarrow> do { nd \<leftarrow> lookup h a; Some (const_iterator (list_next nd) (c_container it)) })"

definition const_iterator_dec :: "('k, 'v) heap \<Rightarrow> const_iterator \<Rightarrow> const_iterator option" where
  "const_iterator_dec h it =
     (case c_current it of
        None \<Rightarrow> Some it
      | Some a \<Rightarrow> do { nd \<leftarrow> lookup h a; Some (const_iterator (list_prev nd) (c_container it)) })"

definition const_iterator_post_inc ::
  "('k, 'v) heap \<Rightarrow> const_iterator \<Rightarrow> (const_iterator \<times> const_iterator) option" where
  "const_iterator_post_inc h it =
     (let temp = it in
      case c_current it of
        None \<Rightarrow> Some (it, temp)
      | Some a \<Rightarrow>
          do { nd \<leftarrow> lookup h a; Some (const_iterator (list_next nd) (c_container it), temp) })"

definition const_iterator_post_dec ::
  "('k, 'v) heap \<Rightarrow> const_iterator \<Rightarrow> (const_iterator \<times> const_iterator) option" where
  "const_iterator_post_dec h it =
     (let temp = it in
      case c_current it of
        None \<Rightarrow> Some (it, temp)
      | Some a \<Rightarrow>
          do { nd \<leftarrow> lookup h a; Some (const_iterator (list_prev nd) (c_container it), temp) })"

text \<open>\<^verbatim>\<open>operator*\<close>: the pair stored in the current node.\<close>

definition iterator_deref :: "('k, 'v) heap \<Rightarrow> iterator \<Rightarrow> ('k \<times> 'v) option" where
  "iterator_deref h it = do { a \<leftarrow> current it; nd \<leftarrow> lookup h a; Some (data nd) }"

definition const_iterator_deref :: "('k, 'v) heap \<Rightarrow> const_iterator \<Rightarrow> ('k \<times> 'v) option" where
  "const_iterator_deref h it = do { a \<leftarrow> c_current it; nd \<leftarrow> lookup h a; Some (data nd) }"

text \<open>\<^verbatim>\<open>operator==\<close> compares the current nodes only.\<close>

definition iterator_eq :: "iterator \<Rightarrow> iterator \<Rightarrow> bool" where
  "iterator_eq lhs rhs = (current lhs = current rhs)"

definition const_iterator_eq :: "const_iterator \<Rightarrow> const_iterator \<Rightarrow> bool" where
  "const_iterator_eq lhs rhs = (c_current lhs = c_current rhs)"

definition begin_it :: "nat \<Rightarrow> linked_hashmap \<Rightarrow> iterator" where
  "begin_it this m = iterator (head m) (Some this)"

definition cbegin :: "nat \<Rightarrow> linked_hashmap \<Rightarrow> const_iterator" where
  "cbegin this m = const_iterator (head m) (Some this)"

definition end_it :: "nat \<Rightarrow> iterator" where
  "end_it this = iterator None (Some this)"

definition cend :: "nat \<Rightarrow> const_iterator" where
  "cend this = const_iterator None (Some this)"

section \<open>The operations\<close>

definition init :: linked_hashmap where
  "init = \<lparr>buckets = replicate INITIAL_CAPACITY None, bucket_count = INITIAL_CAPACITY,
           element_count = 0, head = None, tail = None\<rparr>"

definition is_empty :: "linked_hashmap \<Rightarrow> bool" where
  "is_empty m = (element_count m = 0)"

definition size_of :: "linked_hashmap \<Rightarrow> nat" where
  "size_of m = element_count m"

text \<open>
  The chain walk \<^verbatim>\<open>while (current) { if (key_equal(...)) return ...; current = current->next; }\<close>
  of \<^verbatim>\<open>insert\<close> and of both \<^verbatim>\<open>find\<close>: the node found, or null.
  \<^verbatim>\<open>insert\<close>, \<^verbatim>\<open>find\<close>, \<^verbatim>\<open>count\<close> and \<^verbatim>\<open>empty\<close> are named \<open>insert_entry\<close>,
  \<open>find_key\<close>, \<open>count_key\<close> and \<open>is_empty\<close> here.
\<close>

partial_function (option) chain_walk :: "('k, 'v) heap \<Rightarrow> ptr \<Rightarrow> 'k \<Rightarrow> ptr option" where
  "chain_walk h cur key =
     (case cur of
        None \<Rightarrow> Some None
      | Some a \<Rightarrow>
          do {
            nd \<leftarrow> lookup h a;
            if fst (data nd) = key then Some (Some a) else chain_walk h (next nd) key
          })"

declare chain_walk.simps [code]

definition find_key :: "('k \<Rightarrow> nat) \<Rightarrow> nat \<Rightarrow> ('k, 'v) state \<Rightarrow> 'k \<Rightarrow> iterator option" where
  "find_key hasher this s key =
     (case s of (h, m) \<Rightarrow>
        do {
          index \<leftarrow> hash_index hasher m key;
          first \<leftarrow> bucket_at (buckets m) index;
          r \<leftarrow> chain_walk h first key;
          Some (case r of Some a \<Rightarrow> iterator (Some a) (Some this) | None \<Rightarrow> end_it this)
        })"

definition find_key_const :: "('k \<Rightarrow> nat) \<Rightarrow> nat \<Rightarrow> ('k, 'v) state \<Rightarrow> 'k \<Rightarrow> const_iterator option" where
  "find_key_const hasher this s key =
     (case s of (h, m) \<Rightarrow>
        do {
          index \<leftarrow> hash_index hasher m key;
          first \<leftarrow> bucket_at (buckets m) index;
          r \<leftarrow> chain_walk h first key;
          Some (case r of Some a \<Rightarrow> const_iterator (Some a) (Some this) | None \<Rightarrow> cend this)
        })"

definition count_key :: "('k \<Rightarrow> nat) \<Rightarrow> nat \<Rightarrow> ('k, 'v) state \<Rightarrow> 'k \<Rightarrow> nat option" where
  "count_key hasher this s key =
     do { it \<leftarrow> find_key_const hasher this s key;
          Some (if \<not> const_iterator_eq it (cend this) then 1 else 0) }"

definition insert_entry :: "('k \<Rightarrow> nat) \<Rightarrow> nat \<Rightarrow> ('k, 'v) state \<Rightarrow> 'k \<times> 'v \<Rightarrow> (('k, 'v) state \<times> iterator \<times> bool) option" where
  "insert_entry hasher this s val =
     do {
       (h, m) \<leftarrow> ensure_capacity hasher s;
       index \<leftarrow> hash_index hasher m (fst val);
       first \<leftarrow> bucket_at (buckets m) index;
       r \<leftarrow> chain_walk h first (fst val);
       case r of
         Some a \<Rightarrow> Some ((h, m), iterator (Some a) (Some this), False)
       | None \<Rightarrow>
           do {
             let (h0, new_node) = alloc h (new_Node val);
             h1 \<leftarrow> modify h0 new_node (\<lambda>n. n\<lparr>next := first\<rparr>);
             h2 \<leftarrow> (case first of None \<Rightarrow> Some h1
                     | Some b \<Rightarrow> modify h1 b (\<lambda>n. n\<lparr>prev := Some new_node\<rparr>));
             let m1 = m\<lparr>buckets := (buckets m)[index := Some new_node]\<rparr>;
             (h4, m2) \<leftarrow>
               (case head m1 of
                  None \<Rightarrow> Some (h2, m1\<lparr>head := Some new_node, tail := Some new_node\<rparr>)
                | Some hd_node \<Rightarrow>
                    do {
                      t \<leftarrow> tail m1;
                      h3 \<leftarrow> modify h2 t (\<lambda>n. n\<lparr>list_next := Some new_node\<rparr>);
                      h4 \<leftarrow> modify h3 new_node (\<lambda>n. n\<lparr>list_prev := tail m1\<rparr>);
                      Some (h4, m1\<lparr>tail := Some new_node\<rparr>)
                    });
             Some ((h4, m2\<lparr>element_count := element_count m2 + 1\<rparr>),
                   iterator (Some new_node) (Some this), True)
           }
     }"

text \<open>A caller's loop \<^verbatim>\<open>for (const auto &val : vals) m.insert(val);\<close>.\<close>

fun insert_all :: "('k \<Rightarrow> nat) \<Rightarrow> nat \<Rightarrow> ('k, 'v) state \<Rightarrow> ('k \<times> 'v) list \<Rightarrow> ('k, 'v) state option" where
  "insert_all hasher this s [] = Some s"
| "insert_all hasher this s (val # vals) =
     do { (s', result) \<leftarrow> insert_entry hasher this s val; insert_all hasher this s' vals }"

text \<open>
  \<^verbatim>\<open>erase\<close> returns the state together with the exception thrown, if any.
  The fields of the erased node are read from the node as it was on entry:
  none of the four writes changes them, also when a link points back to the
  node itself. \<^verbatim>\<open>--element_count\<close> on a count of zero gives \<open>SIZE_MAX\<close>.
\<close>

definition erase :: "('k \<Rightarrow> nat) \<Rightarrow> nat \<Rightarrow> ('k, 'v) state \<Rightarrow> iterator \<Rightarrow> (('k, 'v) state \<times> error option) option" where
  "erase hasher this s pos =
     (case s of (h, m) \<Rightarrow>
        if iterator_eq pos (end_it this) \<or> container pos \<noteq> Some this
        then Some ((h, m), Some invalid_iterator)
        else
          do {
            node \<leftarrow> current pos;
            nd \<leftarrow> lookup h node;
            index \<leftarrow> hash_index hasher m (fst (data nd));
            (h1, m1) \<leftarrow>
              (case prev nd of
                 Some p \<Rightarrow> do { h1 \<leftarrow> modify h p (\<lambda>n. n\<lparr>next := next nd\<rparr>); Some (h1, m) }
               | None \<Rightarrow>
                   if index < length (buckets m)
                   then Some (h, m\<lparr>buckets := (buckets m)[index := next nd]\<rparr>)
                   else None);
            h2 \<leftarrow> (case next nd of
                     Some n' \<Rightarrow> modify h1 n' (\<lambda>n. n\<lparr>prev := prev nd\<rparr>)
                   | None \<Rightarrow> Some h1);
            (h3, m2) \<leftarrow>
              (case list_prev nd of
                 Some p \<Rightarrow>
                   do { h3 \<leftarrow> modify h2 p (\<lambda>n. n\<lparr>list_next := list_next nd\<rparr>); Some (h3, m1) }
               | None \<Rightarrow> Some (h2, m1\<lparr>head := list_next nd\<rparr>));
            (h4, m3) \<leftarrow>
              (case list_next nd of
                 Some n' \<Rightarrow>
                   do { h4 \<leftarrow> modify h3 n' (\<lambda>n. n\<lparr>list_prev := list_prev nd\<rparr>); Some (h4, m2) }
               | None \<Rightarrow> Some (h3, m2\<lparr>tail := list_prev nd\<rparr>));
            h5 \<leftarrow> free h4 node;
            Some ((h5, m3\<lparr>element_count := (if element_count m3 = 0 then SIZE_MAX
                                               else element_count m3 - 1)\<rparr>), None)
          })"

text \<open>The loop of \<^verbatim>\<open>clear\<close> that deletes every node of the order list.\<close>

partial_function (option) clear_nodes :: "('k, 'v) heap \<Rightarrow> ptr \<Rightarrow> ('k, 'v) heap option" where
  "clear_nodes h cur =
     (case cur of
        None \<Rightarrow> Some h
      | Some a \<Rightarrow> do { nd \<leftarrow> lookup h a; h' \<leftarrow> free h a; clear_nodes h' (list_next nd) })"

declare clear_nodes.simps [code]

text \<open>The loop of \<^verbatim>\<open>clear\<close> that nulls every bucket.\<close>

function clear_buckets :: "nat \<Rightarrow> nat \<Rightarrow> ptr list \<Rightarrow> ptr list option" where
  "clear_buckets n i bs =
     (if i < n then (if i < length bs then clear_buckets n (i + 1) (bs[i := None]) else None)
      else Some bs)"
  by pat_completeness auto
termination
  by (relation "measure (\<lambda>(n, i, bs). n - i)") auto

definition clear :: "('k, 'v) state \<Rightarrow> ('k, 'v) state option" where
  "clear s =
     (case s of (h, m) \<Rightarrow>
        do {
          h' \<leftarrow> clear_nodes h (head m);
          bs \<leftarrow> clear_buckets (bucket_count m) 0 (buckets m);
          Some (h', m\<lparr>head := None, tail := None, element_count := 0, buckets := bs\<rparr>)
        })"

text \<open>
  \<^verbatim>\<open>at\<close> returns a reference to the mapped value: the address of the node that
  holds it, read with \<open>value_at\<close>. Neither overload writes to the container.
\<close>

definition value_at :: "('k, 'v) heap \<Rightarrow> addr \<Rightarrow> 'v option" where
  "value_at h a = do { nd \<leftarrow> lookup h a; Some (snd (data nd)) }"

definition at_key :: "('k \<Rightarrow> nat) \<Rightarrow> nat \<Rightarrow> ('k, 'v) state \<Rightarrow> 'k \<Rightarrow> (error + addr) option" where
  "at_key hasher this s key =
     do {
       it \<leftarrow> find_key hasher this s key;
       if iterator_eq it (end_it this) then Some (Inl index_out_of_bound)
       else do { a \<leftarrow> current it; nd \<leftarrow> lookup (fst s) a; Some (Inr a) }
     }"

definition at_key_const :: "('k \<Rightarrow> nat) \<Rightarrow> nat \<Rightarrow> ('k, 'v) state \<Rightarrow> 'k \<Rightarrow> (error + addr) option" where
  "at_key_const hasher this s key =
     do {
       it \<leftarrow> find_key_const hasher this s key;
       if const_iterator_eq it (cend this) then Some (Inl index_out_of_bound)
       else do { a \<leftarrow> c_current it; nd \<leftarrow> lookup (fst s) a; Some (Inr a) }
     }"

text \<open>
  \<^verbatim>\<open>operator[]\<close>; \<open>dflt\<close> is the value-initialised \<^verbatim>\<open>T()\<close>.
\<close>

definition index_access :: "('k \<Rightarrow> nat) \<Rightarrow> 'v \<Rightarrow> nat \<Rightarrow> ('k, 'v) state \<Rightarrow> 'k \<Rightarrow> (('k, 'v) state \<times> addr) option" where
  "index_access hasher dflt this s key =
     do {
       it \<leftarrow> find_key hasher this s key;
       if \<not> iterator_eq it (end_it this)
       then do { a \<leftarrow> current it; nd \<leftarrow> lookup (fst s) a; Some (s, a) }
       else
         do {
           (s', result) \<leftarrow> insert_entry hasher this s (key, dflt);
           a \<leftarrow> current (fst result);
           nd \<leftarrow> lookup (fst s') a;
           Some (s', a)
         }
     }"

definition index_access_const :: "('k \<Rightarrow> nat) \<Rightarrow> nat \<Rightarrow> ('k, 'v) state \<Rightarrow> 'k \<Rightarrow> (error + addr) option" where
  "index_access_const hasher this s key = at_key_const hasher this s key"

text \<open>
  The loop of the copy constructor,
  \<^verbatim>\<open>for (const_iterator it = other.cbegin(); it != other.cend(); ++it) insert(*it);\<close>.
  Both containers live in the same heap.
\<close>

partial_function (option) copy_loop ::
  "('k \<Rightarrow> nat) \<Rightarrow> nat \<Rightarrow> nat \<Rightarrow> ('k, 'v) state \<Rightarrow> const_iterator \<Rightarrow> ('k, 'v) state option" where
  "copy_loop hasher this other_this s it =
     (if \<not> const_iterator_eq it (cend other_this) then
        do {
          val \<leftarrow> const_iterator_deref (fst s) it;
          (s', result) \<leftarrow> insert_entry hasher this s val;
          it' \<leftarrow> const_iterator_inc (fst s') it;
          copy_loop hasher this other_this s' it'
        }
      else Some s)"

declare copy_loop.simps [code]

definition copy_construct ::
  "('k \<Rightarrow> nat) \<Rightarrow> nat \<Rightarrow> nat \<Rightarrow> ('k, 'v) heap \<Rightarrow> linked_hashmap \<Rightarrow> ('k, 'v) state option" where
  "copy_construct hasher this other_this h other =
     copy_loop hasher this other_this
       (h, \<lparr>buckets = replicate (bucket_count other) None, bucket_count = bucket_count other,
            element_count = 0, head = None, tail = None\<rparr>)
       (cbegin other_this other)"

definition swap_maps :: "linked_hashmap \<Rightarrow> linked_hashmap \<Rightarrow> linked_hashmap \<times> linked_hashmap" where
  "swap_maps m other =
     (m\<lparr>buckets := buckets other, bucket_count := bucket_count other,
        element_count := element_count other, head := head other, tail := tail other\<rparr>,
      other\<lparr>buckets := buckets m, bucket_count := bucket_count m,
            element_count := element_count m, head := head m, tail := tail m\<rparr>)"

text \<open>The destructor: \<^verbatim>\<open>clear()\<close>, then the bucket array is released.\<close>

definition destroy :: "('k, 'v) state \<Rightarrow> ('k, 'v) heap option" where
  "destroy s = do { (h, m) \<leftarrow> clear s; Some h }"

text \<open>
  \<^verbatim>\<open>operator=\<close>: copy into a temporary at address \<open>tmp\<close>, swap, destroy the
  temporary (which now holds the old contents).
\<close>

definition assign ::
  "('k \<Rightarrow> nat) \<Rightarrow> nat \<Rightarrow> nat \<Rightarrow> nat \<Rightarrow> ('k, 'v) state \<Rightarrow> linked_hashmap \<Rightarrow> ('k, 'v) state option" where
  "assign hasher this other_this tmp s other =
     (case s of (h, m) \<Rightarrow>
        if this \<noteq> other_this then
          do {
            (h1, temp) \<leftarrow> copy_construct hasher tmp other_this h other;
            let (m', temp') = swap_maps m temp;
            h2 \<leftarrow> destroy (h1, temp');
            Some (h2, m')
          }
        else Some (h, m))"

text \<open>
  A traversal from \<^verbatim>\<open>begin()\<close> to \<^verbatim>\<open>end()\<close>,
  \<^verbatim>\<open>for (it = begin(); it != end(); ++it) out.push_back(*it);\<close>.
\<close>

partial_function (option) collect :: "('k, 'v) heap \<Rightarrow> iterator \<Rightarrow> iterator \<Rightarrow> ('k \<times> 'v) list option" where
  "collect h it stop =
     (if \<not> iterator_eq it stop then
        do {
          val \<leftarrow> iterator_deref h it;
          it' \<leftarrow> iterator_inc h it;
          vals \<leftarrow> collect h it' stop;
          Some (val # vals)
        }
      else Some [])"

declare collect.simps [code]

definition traverse :: "nat \<Rightarrow> ('k, 'v) state \<Rightarrow> ('k \<times> 'v) list option" where
  "traverse this s = (case s of (h, m) \<Rightarrow> collect h (begin_it this m) (end_it this))"

section \<open>Well-formed containers\<close>

text \<open>
  The order list and every bucket chain are described by the list of their
  addresses: each node's links are its neighbours in the list. A container is
  well formed when such lists exist: the order list \<open>ord\<close> has \<open>element_count\<close>
  distinct nodes with distinct keys, starts at \<open>head\<close> and ends at \<open>tail\<close>, and
  bucket \<open>i\<close> heads a chain \<open>chs ! i\<close> of exactly the nodes of \<open>ord\<close> whose key
  hashes to \<open>i\<close>.
\<close>

fun hdp :: "'a list \<Rightarrow> 'a option" where
  "hdp [] = None"
| "hdp (x # xs) = Some x"

definition lastp :: "'a list \<Rightarrow> 'a option" where
  "lastp xs = hdp (rev xs)"

fun succ_in :: "'a list \<Rightarrow> 'a \<Rightarrow> 'a option" where
  "succ_in [] a = None"
| "succ_in (x # xs) a = (if x = a then hdp xs else succ_in xs a)"

definition pred_in :: "'a list \<Rightarrow> 'a \<Rightarrow> 'a option" where
  "pred_in xs a = succ_in (rev xs) a"

definition key_of :: "('k, 'v) heap \<Rightarrow> addr \<Rightarrow> 'k" where
  "key_of h a = fst (data (the (lookup h a)))"

definition entry_of :: "('k, 'v) heap \<Rightarrow> addr \<Rightarrow> 'k \<times> 'v" where
  "entry_of h a = data (the (lookup h a))"

definition node_ok ::
  "('k \<Rightarrow> nat) \<Rightarrow> ('k, 'v) heap \<Rightarrow> linked_hashmap \<Rightarrow> addr list \<Rightarrow> addr list list \<Rightarrow> addr \<Rightarrow> bool" where
  "node_ok hasher h m ord chs a =
     (case lookup h a of
        None \<Rightarrow> False
      | Some nd \<Rightarrow>
          (let c = chs ! (hasher (fst (data nd)) mod bucket_count m) in
           list_next nd = succ_in ord a \<and> list_prev nd = pred_in ord a \<and>
           a \<in> set c \<and> next nd = succ_in c a \<and> prev nd = pred_in c a))"

definition map_inv ::
  "('k \<Rightarrow> nat) \<Rightarrow> ('k, 'v) heap \<Rightarrow> linked_hashmap \<Rightarrow> addr list \<Rightarrow> addr list list \<Rightarrow> bool" where
  "map_inv hasher h m ord chs =
     (0 < bucket_count m \<and> length (buckets m) = bucket_count m \<and> length chs = bucket_count m \<and>
      distinct ord \<and> length ord = element_count m \<and>
      head m = hdp ord \<and> tail m = lastp ord \<and>
      distinct (map (key_of h) ord) \<and>
      (\<forall>a \<in> set ord. node_ok hasher h m ord chs a) \<and>
      (\<forall>i < bucket_count m.
         buckets m ! i = hdp (chs ! i) \<and> distinct (chs ! i) \<and>
         (\<forall>a \<in> set (chs ! i). a \<in> set ord \<and> hasher (key_of h a) mod bucket_count m = i)))"

definition well_formed :: "('k \<Rightarrow> nat) \<Rightarrow> ('k, 'v) state \<Rightarrow> bool" where
  "well_formed hasher s = (case s of (h, m) \<Rightarrow> \<exists>ord chs. map_inv hasher h m ord chs)"

text \<open>
  The capacity is a multiple of four (it starts at 16 and doubles) and the
  load factor is at most 0.75.
\<close>

definition load_ok :: "linked_hashmap \<Rightarrow> bool" where
  "load_ok m = (4 dvd bucket_count m \<and> 4 * element_count m \<le> 3 * bucket_count m)"

section \<open>Definitions used in the proofs\<close>

subsection \<open>Heap cells and linked chains\<close>

text \<open>
  The heap after a write to the cell \<open>a\<close>, a chain whose \<open>nxt\<close> links follow the
  list \<open>cs\<close>, and the first node of a list of nodes that holds the key \<open>k\<close>.
\<close>

definition upd :: "('k, 'v) heap \<Rightarrow> addr \<Rightarrow> (('k, 'v) Node \<Rightarrow> ('k, 'v) Node) \<Rightarrow> ('k, 'v) heap" where
  "upd h a f = h[a := map_option f (lookup h a)]"

definition linked :: "('k, 'v) heap \<Rightarrow> (('k, 'v) Node \<Rightarrow> ptr) \<Rightarrow> addr list \<Rightarrow> bool" where
  "linked h nxt cs = (distinct cs \<and> (\<forall>a \<in> set cs. \<exists>nd. lookup h a = Some nd \<and> nxt nd = succ_in cs a))"

definition find_addr :: "('k, 'v) heap \<Rightarrow> addr list \<Rightarrow> 'k \<Rightarrow> ptr" where
  "find_addr h cs k = hdp (filter (\<lambda>a. key_of h a = k) cs)"

subsection \<open>Erasing a node\<close>

text \<open>
  The heap and the data members that \<^verbatim>\<open>erase\<close> leaves for the node \<open>nd\<close> at
  address \<open>a\<close>.
\<close>

definition upd_opt :: "('k, 'v) heap \<Rightarrow> ptr \<Rightarrow> (('k, 'v) Node \<Rightarrow> ('k, 'v) Node) \<Rightarrow> ('k, 'v) heap" where
  "upd_opt h q f = (case q of None \<Rightarrow> h | Some p \<Rightarrow> upd h p f)"

definition erase_heap :: "('k, 'v) heap \<Rightarrow> addr \<Rightarrow> ('k, 'v) Node \<Rightarrow> ('k, 'v) heap" where
  "erase_heap h a nd =
     (upd_opt (upd_opt (upd_opt (upd_opt h
        (prev nd) (\<lambda>n. n\<lparr>next := next nd\<rparr>))
        (next nd) (\<lambda>n. n\<lparr>prev := prev nd\<rparr>))
        (list_prev nd) (\<lambda>n. n\<lparr>list_next := list_next nd\<rparr>))
        (list_next nd) (\<lambda>n. n\<lparr>list_prev := list_prev nd\<rparr>))[a := None]"

definition erase_header :: "('k \<Rightarrow> nat) \<Rightarrow> ('k, 'v) Node \<Rightarrow> linked_hashmap \<Rightarrow> linked_hashmap" where
  "erase_header hasher nd m =
     m\<lparr>buckets := (case prev nd of
                     None \<Rightarrow> (buckets m)[hasher (fst (data nd)) mod bucket_count m := next nd]
                   | Some p \<Rightarrow> buckets m),
       head := (case list_prev nd of None \<Rightarrow> list_next nd | Some p \<Rightarrow> head m),
       tail := (case list_next nd of None \<Rightarrow> list_prev nd | Some p \<Rightarrow> tail m),
       element_count := (if element_count m = 0 then SIZE_MAX else element_count m - 1)\<rparr>"

subsection \<open>Erase keeps the container well formed\<close>

definition erase_links :: "('k, 'v) Node \<Rightarrow> addr \<Rightarrow> ('k, 'v) Node \<Rightarrow> ('k, 'v) Node" where
  "erase_links nd b n =
     n\<lparr>next := (if prev nd = Some b then next nd else next n),
       prev := (if next nd = Some b then prev nd else prev n),
       list_next := (if list_prev nd = Some b then list_next nd else list_next n),
       list_prev := (if list_next nd = Some b then list_prev nd else list_prev n)\<rparr>"

subsection \<open>Linking a new node\<close>

text \<open>
  The heap and the data members that \<^verbatim>\<open>insert\<close> leaves after linking a new
  node in front of the chain \<open>first\<close> and behind the last node \<open>lst\<close>.
\<close>

definition insert_heap :: "('k, 'v) heap \<Rightarrow> 'k \<times> 'v \<Rightarrow> ptr \<Rightarrow> ptr \<Rightarrow> ('k, 'v) heap" where
  "insert_heap h val first lst =
     (let new_node = length h;
          h2 = upd_opt (upd (h @ [Some (new_Node val)]) new_node (\<lambda>n. n\<lparr>next := first\<rparr>))
                 first (\<lambda>n. n\<lparr>prev := Some new_node\<rparr>)
      in case lst of
           None \<Rightarrow> h2
         | Some t \<Rightarrow> upd (upd h2 t (\<lambda>n. n\<lparr>list_next := Some new_node\<rparr>))
                      new_node (\<lambda>n. n\<lparr>list_prev := lst\<rparr>))"

definition insert_header :: "nat \<Rightarrow> nat \<Rightarrow> linked_hashmap \<Rightarrow> linked_hashmap" where
  "insert_header new_node index m =
     m\<lparr>buckets := (buckets m)[index := Some new_node],
       head := (case head m of None \<Rightarrow> Some new_node | Some a \<Rightarrow> head m),
       tail := Some new_node,
       element_count := element_count m + 1\<rparr>"

subsection \<open>Insertion keeps the container well formed\<close>

definition insert_links :: "addr \<Rightarrow> ptr \<Rightarrow> ptr \<Rightarrow> addr \<Rightarrow> ('k, 'v) Node \<Rightarrow> ('k, 'v) Node" where
  "insert_links new_node first lst b n =
     n\<lparr>prev := (if first = Some b then Some new_node else prev n),
       list_next := (if lst = Some b then Some new_node else list_next n)\<rparr>"

subsection \<open>Rehashing\<close>

text \<open>
  The invariant of the loops of \<^verbatim>\<open>rehash\<close>: the nodes in \<open>P\<close> have been moved
  to the new chains \<open>nchs\<close> headed by \<open>nb\<close>, every other cell is as in the heap
  \<open>h0\<close> before the call, and no node has lost its data or its order links.
\<close>

definition rh_inv ::
  "('k \<Rightarrow> nat) \<Rightarrow> nat \<Rightarrow> ('k, 'v) heap \<Rightarrow> ('k, 'v) heap \<Rightarrow> ptr list \<Rightarrow> addr list list \<Rightarrow> addr set \<Rightarrow> bool" where
  "rh_inv hasher nc h0 h nb nchs P =
     (length nb = nc \<and> length nchs = nc \<and> length h = length h0 \<and>
      (\<forall>a. a \<notin> P \<longrightarrow> lookup h a = lookup h0 a) \<and>
      (\<forall>a \<in> P. \<exists>n0 n. lookup h0 a = Some n0 \<and> lookup h a = Some n \<and>
          data n = data n0 \<and> list_next n = list_next n0 \<and> list_prev n = list_prev n0 \<and>
          a \<in> set (nchs ! (hasher (key_of h0 a) mod nc)) \<and>
          next n = succ_in (nchs ! (hasher (key_of h0 a) mod nc)) a \<and>
          prev n = pred_in (nchs ! (hasher (key_of h0 a) mod nc)) a) \<and>
      (\<forall>j < nc. nb ! j = hdp (nchs ! j) \<and> distinct (nchs ! j) \<and>
          (\<forall>a \<in> set (nchs ! j). a \<in> P \<and> hasher (key_of h0 a) mod nc = j)))"

definition rehash_step_heap :: "('k, 'v) heap \<Rightarrow> addr \<Rightarrow> ptr \<Rightarrow> ('k, 'v) heap" where
  "rehash_step_heap h c nbv =
     upd (upd_opt (upd h c (\<lambda>n. n\<lparr>next := nbv\<rparr>)) nbv (\<lambda>n. n\<lparr>prev := Some c\<rparr>)) c (\<lambda>n. n\<lparr>prev := None\<rparr>)"

subsection \<open>The loops of rehash\<close>

text \<open>
  Two heaps with the same cells allocated, where every node has the same data
  and the same order links in both.
\<close>

definition same_order :: "('k, 'v) heap \<Rightarrow> ('k, 'v) heap \<Rightarrow> bool" where
  "same_order h h' =
     (length h' = length h \<and>
      (\<forall>a. rel_option (\<lambda>n n'. data n' = data n \<and> list_next n' = list_next n \<and>
                               list_prev n' = list_prev n) (lookup h a) (lookup h' a)))"

subsection \<open>Erase and element access\<close>

text \<open>
  A pointer references an entry of the container: its node is allocated and
  \<^verbatim>\<open>find\<close> on the key stored there returns that node.
\<close>

definition live_node :: "('k \<Rightarrow> nat) \<Rightarrow> ('k, 'v) state \<Rightarrow> ptr \<Rightarrow> bool" where
  "live_node hasher s p =
     (case p of
        None \<Rightarrow> False
      | Some a \<Rightarrow>
          (case lookup (fst s) a of
             None \<Rightarrow> False
           | Some nd \<Rightarrow> map_option current (find_key hasher 0 s (fst (data nd))) = Some (Some a)))"

subsection \<open>Containers that share no node\<close>

text \<open>
  Two containers in one heap that are both well formed and share no node.
\<close>

definition separate :: "('k \<Rightarrow> nat) \<Rightarrow> ('k, 'v) heap \<Rightarrow> linked_hashmap \<Rightarrow> linked_hashmap \<Rightarrow> bool" where
  "separate hasher h X Y =
     (\<exists>ordX chsX ordY chsY. map_inv hasher h X ordX chsX \<and> map_inv hasher h Y ordY chsY \<and>
        set ordX \<inter> set ordY = {})"

subsection \<open>An example container\<close>

text \<open>
  A container with capacity 4 holding the keys 1, 2 and 5, inserted in that
  order under the identity hash; 1 and 5 share bucket 1.
\<close>

abbreviation example_heap :: "(nat, nat) heap" where
  "example_heap \<equiv>
     [Some \<lparr>data = (1, 10), next = None, prev = Some 2, list_next = Some 1, list_prev = None\<rparr>,
      Some \<lparr>data = (2, 20), next = None, prev = None, list_next = Some 2, list_prev = Some 0\<rparr>,
      Some \<lparr>data = (5, 50), next = Some 0, prev = None, list_next = None, list_prev = Some 1\<rparr>]"

abbreviation example_map :: linked_hashmap where
  "example_map \<equiv>
     \<lparr>buckets = [None, Some 2, Some 1, None], bucket_count = 4, element_count = 3,
      head = Some 0, tail = Some 2\<rparr>"

subsection \<open>Reachable states\<close>

text \<open>
  The states a container can be in: made by a constructor or by an assignment,
  then changed by \<^verbatim>\<open>insert\<close>, \<^verbatim>\<open>erase\<close>, \<^verbatim>\<open>operator[]\<close> and \<^verbatim>\<open>clear\<close>, while the
  rest of the heap may change in any way. \<^verbatim>\<open>swap\<close> exchanges two such states.
  \<^verbatim>\<open>erase\<close> is called with an iterator that is past-the-end, carries the
  address of another container, or references an entry of this container. An
  iterator that carries the address of this container while its node is an
  entry of another one (an iterator kept across \<^verbatim>\<open>swap\<close>) is left out: \<^verbatim>\<open>erase\<close>
  through it damages both containers.
\<close>

inductive reachable :: "('k \<Rightarrow> nat) \<Rightarrow> ('k, 'v) state \<Rightarrow> bool" for hasher where
  constructed: "reachable hasher (h, init)"
| copied: "reachable hasher (h, other) \<Longrightarrow> copy_construct hasher this other_this h other = Some s \<Longrightarrow>
     reachable hasher s"
| assigned: "reachable hasher (h, m) \<Longrightarrow> reachable hasher (h, other) \<Longrightarrow>
     separate hasher h m other \<Longrightarrow>
     assign hasher this other_this tmp (h, m) other = Some s \<Longrightarrow> reachable hasher s"
| inserted: "reachable hasher s \<Longrightarrow> insert_entry hasher this s val = Some (s', r) \<Longrightarrow>
     reachable hasher s'"
| erased: "reachable hasher s \<Longrightarrow>
     (container pos = Some this \<longrightarrow> current pos \<noteq> None \<longrightarrow> live_node hasher s (current pos)) \<Longrightarrow>
     erase hasher this s pos = Some (s', e) \<Longrightarrow> reachable hasher s'"
| indexed: "reachable hasher s \<Longrightarrow> index_access hasher dflt this s key = Some (s', a) \<Longrightarrow>
     reachable hasher s'"
| cleared: "reachable hasher s \<Longrightarrow> clear s = Some s' \<Longrightarrow> reachable hasher s'"
| framed: "reachable hasher (h, m) \<Longrightarrow>
     (\<forall>a. live_node hasher (h, m) (Some a) \<longrightarrow> lookup h' a = lookup h a) \<Longrightarrow>
     reachable hasher (h', m)"

subsection \<open>Running the loops on a given heap\<close>

text \<open>
  The container after \<^verbatim>\<open>insert\<close> of the keys 0 to 10 and 17 into a new
  container, under the identity hash: twelve entries in sixteen buckets, 1 and
  17 sharing bucket 1.
\<close>

abbreviation full_heap :: "(nat, nat) heap" where
  "full_heap \<equiv>
     [Some \<lparr>data = (0, 0), next = None, prev = None, list_next = Some 1, list_prev = None\<rparr>,
      Some \<lparr>data = (1, 10), next = None, prev = Some 11, list_next = Some 2, list_prev = Some 0\<rparr>,
      Some \<lparr>data = (2, 20), next = None, prev = None, list_next = Some 3, list_prev = Some 1\<rparr>,
      Some \<lparr>data = (3, 30), next = None, prev = None, list_next = Some 4, list_prev = Some 2\<rparr>,
      Some \<lparr>data = (4, 40), next = None, prev = None, list_next = Some 5, list_prev = Some 3\<rparr>,
      Some \<lparr>data = (5, 50), next = None, prev = None, list_next = Some 6, list_prev = Some 4\<rparr>,
      Some \<lparr>data = (6, 60), next = None, prev = None, list_next = Some 7, list_prev = Some 5\<rparr>,
      Some \<lparr>data = (7, 70), next = None, prev = None, list_next = Some 8, list_prev = Some 6\<rparr>,
      Some \<lparr>data = (8, 80), next = None, prev = None, list_next = Some 9, list_prev = Some 7\<rparr>,
      Some \<lparr>data = (9, 90), next = None, prev = None, list_next = Some 10, list_prev = Some 8\<rparr>,
      Some \<lparr>data = (10, 100), next = None, prev = None, list_next = Some 11, list_prev = Some 9\<rparr>,
      Some \<lparr>data = (17, 170), next = Some 1, prev = None, list_next = None, list_prev = Some 10\<rparr>]"

abbreviation full_map :: linked_hashmap where
  "full_map \<equiv>
     \<lparr>buckets = [Some 0, Some 11, Some 2, Some 3, Some 4, Some 5, Some 6, Some 7,
                 Some 8, Some 9, Some 10, None, None, None, None, None],
      bucket_count = 16, element_count = 12, head = Some 0, tail = Some 11\<rparr>"

text \<open>
  The container after \<^verbatim>\<open>insert\<close> of the key 1 into a new container, under the
  identity hash.
\<close>

abbreviation single_heap :: "(nat, nat) heap" where
  "single_heap \<equiv>
     [Some \<lparr>data = (1, 10), next = None, prev = None, list_next = None, list_prev = None\<rparr>]"

abbreviation single_map :: linked_hashmap where
  "single_map \<equiv>
     \<lparr>buckets = [None, Some 0, None, None, None, None, None, None,
                 None, None, None, None, None, None, None, None],
      bucket_count = 16, element_count = 1, head = Some 0, tail = Some 0\<rparr>"

section \<open>Lemmas\<close>

subsection \<open>Successors and predecessors in a list\<close>

lemma hdp_eq_None [simp]: "hdp xs = None \<longleftrightarrow> xs = []"
  by (cases xs) auto

lemma hdp_eq_Some: "hdp xs = Some a \<longleftrightarrow> (\<exists>ys. xs = a # ys)"
  by (cases xs) auto

lemma hdp_in_set: "hdp xs = Some a \<Longrightarrow> a \<in> set xs"
  by (cases xs) auto

lemma hdp_append: "hdp (xs @ ys) = (if xs = [] then hdp ys else hdp xs)"
  by (cases xs) auto

lemma lastp_Nil [simp]: "lastp [] = None"
  by (simp add: lastp_def)

lemma lastp_snoc [simp]: "lastp (xs @ [x]) = Some x"
  by (simp add: lastp_def)

lemma lastp_eq_None [simp]: "lastp xs = None \<longleftrightarrow> xs = []"
  by (simp add: lastp_def)

lemma lastp_Cons: "lastp (x # xs) = (if xs = [] then Some x else lastp xs)"
  by (simp add: lastp_def hdp_append)

lemma lastp_rev [simp]: "lastp (rev xs) = hdp xs"
  by (simp add: lastp_def)

lemma hdp_rev [simp]: "hdp (rev xs) = lastp xs"
  by (simp add: lastp_def)

lemma lastp_in_set: "lastp xs = Some a \<Longrightarrow> a \<in> set xs"
  using hdp_in_set[of "rev xs" a] by simp

lemma succ_in_notin [simp]: "a \<notin> set xs \<Longrightarrow> succ_in xs a = None"
  by (induction xs) auto

lemma pred_in_notin [simp]: "a \<notin> set xs \<Longrightarrow> pred_in xs a = None"
  by (simp add: pred_in_def)

lemma succ_in_Some_mem: "succ_in xs a = Some b \<Longrightarrow> a \<in> set xs \<and> b \<in> set xs"
  by (induction xs) (auto split: if_splits dest: hdp_in_set)

lemma pred_in_Some_mem: "pred_in xs a = Some b \<Longrightarrow> a \<in> set xs \<and> b \<in> set xs"
  using succ_in_Some_mem[of "rev xs" a b] by (simp add: pred_in_def)

lemma succ_in_neq: "distinct xs \<Longrightarrow> succ_in xs a \<noteq> Some a"
  by (induction xs) (auto dest: hdp_in_set)

lemma succ_in_snoc:
  "n \<notin> set xs \<Longrightarrow> distinct xs \<Longrightarrow> succ_in (xs @ [n]) b = (if lastp xs = Some b then Some n else succ_in xs b)"
  by (induction xs) (auto simp: lastp_Cons hdp_append dest: lastp_in_set)

lemma pred_in_Cons:
  "n \<notin> set xs \<Longrightarrow> distinct xs \<Longrightarrow> pred_in (n # xs) b = (if hdp xs = Some b then Some n else pred_in xs b)"
  using succ_in_snoc[of n "rev xs" b] by (simp add: pred_in_def)

lemma pred_in_snoc:
  "pred_in (xs @ [n]) b = (if b = n then lastp xs else pred_in xs b)"
  by (auto simp: pred_in_def)

lemma succ_in_remove1:
  "distinct xs \<Longrightarrow> b \<noteq> a \<Longrightarrow>
   succ_in (remove1 a xs) b = (if succ_in xs b = Some a then succ_in xs a else succ_in xs b)"
proof (induction xs)
  case Nil
  then show ?case by simp
next
  case (Cons x xs)
  show ?case
  proof (cases xs)
    case Nil
    then show ?thesis by auto
  next
    case (Cons y ys)
    with Cons.prems Cons.IH show ?thesis
      by (auto dest: hdp_in_set succ_in_Some_mem)
  qed
qed

lemma rev_remove1: "distinct xs \<Longrightarrow> rev (remove1 a xs) = remove1 a (rev xs)"
  by (induction xs) (auto simp: remove1_append remove1_idem)

lemma pred_in_remove1:
  "distinct xs \<Longrightarrow> b \<noteq> a \<Longrightarrow>
   pred_in (remove1 a xs) b = (if pred_in xs b = Some a then pred_in xs a else pred_in xs b)"
  using succ_in_remove1[of "rev xs" b a] by (simp add: pred_in_def rev_remove1)

lemma hdp_remove1:
  "distinct xs \<Longrightarrow> hdp (remove1 a xs) = (if hdp xs = Some a then succ_in xs a else hdp xs)"
  by (cases xs) auto

lemma lastp_remove1:
  "distinct xs \<Longrightarrow> lastp (remove1 a xs) = (if lastp xs = Some a then pred_in xs a else lastp xs)"
  using hdp_remove1[of "rev xs" a] by (simp add: pred_in_def rev_remove1 flip: hdp_rev)

lemma succ_in_eq_None: "a \<in> set xs \<Longrightarrow> distinct xs \<Longrightarrow> succ_in xs a = None \<longleftrightarrow> lastp xs = Some a"
  by (induction xs) (auto simp: lastp_Cons dest: lastp_in_set)

lemma pred_in_eq_None: "a \<in> set xs \<Longrightarrow> distinct xs \<Longrightarrow> pred_in xs a = None \<longleftrightarrow> hdp xs = Some a"
  using succ_in_eq_None[of a "rev xs"] by (simp add: pred_in_def)

lemma succ_pred: "distinct xs \<Longrightarrow> succ_in xs b = Some a \<longleftrightarrow> pred_in xs a = Some b"
proof (induction xs rule: rev_induct)
  case Nil
  then show ?case by (simp add: pred_in_def)
next
  case (snoc x xs)
  then show ?case
    using succ_in_eq_None[of b xs]
    by (auto simp: succ_in_snoc pred_in_snoc dest: succ_in_Some_mem pred_in_Some_mem lastp_in_set)
qed

subsection \<open>Heap cells and linked chains\<close>

lemma lookup_upd [simp]: "lookup (upd h a f) b = (if b = a then map_option f (lookup h a) else lookup h b)"
  by (auto simp: lookup_def upd_def)

lemma length_upd [simp]: "length (upd h a f) = length h"
  by (simp add: upd_def)

lemma lookup_free [simp]: "lookup (h[a := None]) b = (if b = a then None else lookup h b)"
  by (auto simp: lookup_def)

lemma lookup_alloc [simp]: "lookup (h @ [x]) b = (if b = length h then x else lookup h b)"
  by (auto simp: lookup_def nth_append)

lemma lookup_Some_less: "lookup h a = Some nd \<Longrightarrow> a < length h"
  by (auto simp: lookup_def split: if_splits)

lemma lookup_length [simp]: "lookup h (length h) = None"
  by (simp add: lookup_def)

lemma modify_eq: "lookup h a \<noteq> None \<Longrightarrow> modify h a f = Some (upd h a f)"
  by (auto simp: modify_def upd_def)

lemma free_eq: "lookup h a \<noteq> None \<Longrightarrow> free h a = Some (h[a := None])"
  by (auto simp: free_def)

lemma linked_Nil [simp]: "linked h nxt []"
  by (simp add: linked_def)

lemma linked_Cons:
  "linked h nxt (a # cs) \<longleftrightarrow>
     a \<notin> set cs \<and> (\<exists>nd. lookup h a = Some nd \<and> nxt nd = hdp cs) \<and> linked h nxt cs"
  by (auto simp: linked_def)

lemma linked_cong:
  "linked h nxt cs \<Longrightarrow> \<forall>a \<in> set cs. map_option nxt (lookup h' a) = map_option nxt (lookup h a) \<Longrightarrow>
   linked h' nxt cs"
  unfolding linked_def by (metis (no_types, lifting) map_option_eq_Some option.simps(9))

lemma chain_walk_linked:
  "linked h next cs \<Longrightarrow> chain_walk h (hdp cs) k = Some (find_addr h cs k)"
proof (induction cs)
  case Nil
  then show ?case by (simp add: chain_walk.simps find_addr_def)
next
  case (Cons a cs)
  from Cons.prems obtain nd where nd: "lookup h a = Some nd" "next nd = hdp cs" and l: "linked h next cs"
    by (auto simp: linked_Cons)
  show ?case using Cons.IH[OF l] nd
    by (subst chain_walk.simps) (simp add: find_addr_def key_of_def)
qed

lemma collect_linked:
  "linked h list_next cs \<Longrightarrow>
   collect h (iterator (hdp cs) c) (iterator None c') = Some (map (entry_of h) cs)"
proof (induction cs)
  case Nil
  then show ?case by (subst collect.simps) (simp add: iterator_eq_def)
next
  case (Cons a cs)
  from Cons.prems obtain nd where nd: "lookup h a = Some nd" "list_next nd = hdp cs"
    and l: "linked h list_next cs"
    by (auto simp: linked_Cons)
  show ?case using Cons.IH[OF l] nd
    by (subst collect.simps)
       (simp add: iterator_eq_def iterator_deref_def iterator_inc_def entry_of_def)
qed

subsection \<open>Lookup and traversal of a well-formed container\<close>

lemma inv_lookup:
  "map_inv hasher h m ord chs \<Longrightarrow> a \<in> set ord \<Longrightarrow> \<exists>nd. lookup h a = Some nd"
  by (auto simp: map_inv_def node_ok_def split: option.splits)

lemma inv_pos: "map_inv hasher h m ord chs \<Longrightarrow> 0 < bucket_count m"
  by (simp add: map_inv_def)

lemma inv_mod_less: "map_inv hasher h m ord chs \<Longrightarrow> x mod bucket_count m < bucket_count m"
  by (simp add: map_inv_def)

lemma inv_chain_mem:
  "map_inv hasher h m ord chs \<Longrightarrow> i < bucket_count m \<Longrightarrow> a \<in> set (chs ! i) \<Longrightarrow>
   a \<in> set ord \<and> hasher (key_of h a) mod bucket_count m = i"
  by (simp add: map_inv_def)

lemma inv_node_ok:
  "map_inv hasher h m ord chs \<Longrightarrow> a \<in> set ord \<Longrightarrow> node_ok hasher h m ord chs a"
  by (simp add: map_inv_def)

lemma inv_ord_linked: "map_inv hasher h m ord chs \<Longrightarrow> linked h list_next ord"
  by (auto simp: map_inv_def linked_def node_ok_def Let_def split: option.splits)

lemma inv_chain_linked:
  assumes "map_inv hasher h m ord chs" "i < bucket_count m"
  shows "linked h next (chs ! i)"
  unfolding linked_def
proof (intro conjI ballI)
  show "distinct (chs ! i)" using assms by (simp add: map_inv_def)
next
  fix a assume a: "a \<in> set (chs ! i)"
  with assms have "a \<in> set ord" "hasher (key_of h a) mod bucket_count m = i"
    by (auto simp: map_inv_def)
  moreover from this assms have "node_ok hasher h m ord chs a" by (simp add: map_inv_def)
  ultimately show "\<exists>nd. lookup h a = Some nd \<and> next nd = succ_in (chs ! i) a"
    by (auto simp: node_ok_def key_of_def Let_def split: option.splits)
qed

lemma find_addr_Some:
  "find_addr h cs k = Some a \<Longrightarrow> a \<in> set cs \<and> key_of h a = k"
  unfolding find_addr_def using hdp_in_set[of "filter (\<lambda>a. key_of h a = k) cs" a] by simp

lemma find_addr_None: "find_addr h cs k = None \<longleftrightarrow> k \<notin> key_of h ` set cs"
  unfolding find_addr_def by (auto simp: filter_empty_conv)

lemma find_addr_unique:
  "distinct (map (key_of h) cs) \<Longrightarrow> a \<in> set cs \<Longrightarrow> key_of h a = k \<Longrightarrow> find_addr h cs k = Some a"
proof -
  assume d: "distinct (map (key_of h) cs)" and a: "a \<in> set cs" "key_of h a = k"
  then have "find_addr h cs k \<noteq> None" by (auto simp: find_addr_None)
  then obtain b where b: "find_addr h cs k = Some b" by auto
  then have "b \<in> set cs" "key_of h b = k" by (auto dest: find_addr_Some)
  with d a have "b = a" by (metis distinct_map inj_onD)
  with b show ?thesis by simp
qed

lemma inv_find_addr_chain:
  assumes "map_inv hasher h m ord chs"
  shows "find_addr h (chs ! (hasher k mod bucket_count m)) k = find_addr h ord k"
proof (cases "find_addr h ord k")
  case None
  then have "k \<notin> key_of h ` set ord" by (simp add: find_addr_None)
  moreover have "set (chs ! (hasher k mod bucket_count m)) \<subseteq> set ord"
    using inv_chain_mem[OF assms inv_mod_less[OF assms]] by auto
  ultimately have "k \<notin> key_of h ` set (chs ! (hasher k mod bucket_count m))" by auto
  then have "find_addr h (chs ! (hasher k mod bucket_count m)) k = None"
    by (simp add: find_addr_None)
  with None show ?thesis by simp
next
  case (Some a)
  then have a: "a \<in> set ord" "key_of h a = k" by (auto dest: find_addr_Some)
  with assms have "node_ok hasher h m ord chs a" by (simp add: map_inv_def)
  with a have ain: "a \<in> set (chs ! (hasher k mod bucket_count m))"
    by (auto simp: node_ok_def key_of_def Let_def split: option.splits)
  then have "find_addr h (chs ! (hasher k mod bucket_count m)) k \<noteq> None"
    using a by (auto simp: find_addr_None)
  then obtain b where b: "find_addr h (chs ! (hasher k mod bucket_count m)) k = Some b" by auto
  then have "b \<in> set (chs ! (hasher k mod bucket_count m))" "key_of h b = k"
    by (auto dest: find_addr_Some)
  moreover from this have "b \<in> set ord"
    using inv_chain_mem[OF assms inv_mod_less[OF assms]] by auto
  ultimately have "b = a" using a assms by (metis distinct_map inj_onD map_inv_def)
  with b Some show ?thesis by simp
qed

lemma inv_chain_walk:
  assumes "map_inv hasher h m ord chs"
  shows "chain_walk h (buckets m ! (hasher k mod bucket_count m)) k = Some (find_addr h ord k)"
proof -
  let ?i = "hasher k mod bucket_count m"
  have i: "?i < bucket_count m" using assms by (simp add: map_inv_def)
  then have "buckets m ! ?i = hdp (chs ! ?i)" using assms by (simp add: map_inv_def)
  then show ?thesis
    using chain_walk_linked[OF inv_chain_linked[OF assms i], of k] inv_find_addr_chain[OF assms, of k]
    by simp
qed

lemma inv_find_key:
  assumes "map_inv hasher h m ord chs"
  shows "find_key hasher this (h, m) k = Some (iterator (find_addr h ord k) (Some this))"
proof -
  have "0 < bucket_count m" "length (buckets m) = bucket_count m"
    using assms by (simp_all add: map_inv_def)
  then show ?thesis
    using inv_chain_walk[OF assms, of k]
    by (auto simp: find_key_def hash_index_def bucket_at_def end_it_def split: option.splits)
qed

lemma inv_find_key_const:
  assumes "map_inv hasher h m ord chs"
  shows "find_key_const hasher this (h, m) k = Some (const_iterator (find_addr h ord k) (Some this))"
proof -
  have "0 < bucket_count m" "length (buckets m) = bucket_count m"
    using assms by (simp_all add: map_inv_def)
  then show ?thesis
    using inv_chain_walk[OF assms, of k]
    by (auto simp: find_key_const_def hash_index_def bucket_at_def cend_def split: option.splits)
qed

lemma inv_traverse:
  assumes "map_inv hasher h m ord chs"
  shows "traverse this (h, m) = Some (map (entry_of h) ord)"
  using collect_linked[OF inv_ord_linked[OF assms], of "Some this" "Some this"] assms
  by (simp add: traverse_def begin_it_def end_it_def map_inv_def)

subsection \<open>Erasing a node\<close>

lemma lookup_upd_opt [simp]:
  "lookup (upd_opt h q f) b = (if q = Some b then map_option f (lookup h b) else lookup h b)"
  by (auto simp: upd_opt_def split: option.splits)

lemma upd_opt_simps [simp]: "upd_opt h None f = h" "upd_opt h (Some p) f = upd h p f"
  by (simp_all add: upd_opt_def)

lemma length_upd_opt [simp]: "length (upd_opt h q f) = length h"
  by (simp add: upd_opt_def split: option.splits)

lemma modify_opt_eq:
  "(\<And>p. q = Some p \<Longrightarrow> lookup h p \<noteq> None) \<Longrightarrow>
   (case q of None \<Rightarrow> Some h | Some p \<Rightarrow> modify h p f) = Some (upd_opt h q f)"
  by (cases q) (simp_all add: upd_opt_def modify_eq)

lemma erase_exec:
  assumes nd: "lookup h a = Some nd"
    and bc: "0 < bucket_count m"
    and idx: "hasher (fst (data nd)) mod bucket_count m < length (buckets m)"
    and p: "\<And>p. prev nd = Some p \<Longrightarrow> lookup h p \<noteq> None"
    and n: "\<And>p. next nd = Some p \<Longrightarrow> lookup h p \<noteq> None"
    and lp: "\<And>p. list_prev nd = Some p \<Longrightarrow> lookup h p \<noteq> None"
    and ln: "\<And>p. list_next nd = Some p \<Longrightarrow> lookup h p \<noteq> None"
  shows "erase hasher this (h, m) (iterator (Some a) (Some this))
               = Some ((erase_heap h a nd, erase_header hasher nd m), None)"
proof -
  let ?h1 = "upd_opt h (prev nd) (\<lambda>n. n\<lparr>next := next nd\<rparr>)"
  let ?h2 = "upd_opt ?h1 (next nd) (\<lambda>n. n\<lparr>prev := prev nd\<rparr>)"
  let ?h3 = "upd_opt ?h2 (list_prev nd) (\<lambda>n. n\<lparr>list_next := list_next nd\<rparr>)"
  let ?h4 = "upd_opt ?h3 (list_next nd) (\<lambda>n. n\<lparr>list_prev := list_prev nd\<rparr>)"
  let ?m1 = "m\<lparr>buckets := (case prev nd of
                     None \<Rightarrow> (buckets m)[hasher (fst (data nd)) mod bucket_count m := next nd]
                   | Some p \<Rightarrow> buckets m)\<rparr>"
  let ?m2 = "?m1\<lparr>head := (case list_prev nd of None \<Rightarrow> list_next nd | Some p \<Rightarrow> head m)\<rparr>"
  let ?m3 = "?m2\<lparr>tail := (case list_next nd of None \<Rightarrow> list_prev nd | Some p \<Rightarrow> tail m)\<rparr>"
  have s1: "(case prev nd of
                 Some p \<Rightarrow> do { h1 \<leftarrow> modify h p (\<lambda>n. n\<lparr>next := next nd\<rparr>); Some (h1, m) }
               | None \<Rightarrow>
                   if hasher (fst (data nd)) mod bucket_count m < length (buckets m)
                   then Some (h, m\<lparr>buckets := (buckets m)[hasher (fst (data nd)) mod bucket_count m := next nd]\<rparr>)
                   else None) = Some (?h1, ?m1)"
    using p idx by (cases "prev nd") (simp_all add: modify_eq)
  have s2: "(case next nd of
                     Some n' \<Rightarrow> modify ?h1 n' (\<lambda>n. n\<lparr>prev := prev nd\<rparr>)
                   | None \<Rightarrow> Some ?h1) = Some ?h2"
    using n by (cases "next nd") (simp_all add: modify_eq)
  have s3: "(case list_prev nd of
                 Some p \<Rightarrow>
                   do { h3 \<leftarrow> modify ?h2 p (\<lambda>n. n\<lparr>list_next := list_next nd\<rparr>); Some (h3, ?m1) }
               | None \<Rightarrow> Some (?h2, ?m1\<lparr>head := list_next nd\<rparr>)) = Some (?h3, ?m2)"
    using lp by (cases "list_prev nd") (simp_all add: modify_eq)
  have s4: "(case list_next nd of
                 Some n' \<Rightarrow>
                   do { h4 \<leftarrow> modify ?h3 n' (\<lambda>n. n\<lparr>list_prev := list_prev nd\<rparr>); Some (h4, ?m2) }
               | None \<Rightarrow> Some (?h3, ?m2\<lparr>tail := list_prev nd\<rparr>)) = Some (?h4, ?m3)"
    using ln by (cases "list_next nd") (simp_all add: modify_eq)
  have s5: "free ?h4 a = Some (?h4[a := None])"
    using nd by (simp add: free_eq)
  show ?thesis
    unfolding erase_def erase_heap_def erase_header_def
    using nd bc
    by (simp add: iterator_eq_def end_it_def hash_index_def s1 s2 s3 s4 s5)
qed

subsection \<open>Erase keeps the container well formed\<close>

lemma erase_heap_lookup:
  "b \<noteq> a \<Longrightarrow> lookup h b = Some nb \<Longrightarrow> lookup (erase_heap h a nd) b = Some (erase_links nd b nb)"
  by (simp add: erase_heap_def erase_links_def)

lemma erase_heap_self [simp]: "lookup (erase_heap h a nd) a = None"
  by (simp add: erase_heap_def)

lemma erase_heap_None: "lookup h b = None \<Longrightarrow> lookup (erase_heap h a nd) b = None"
  by (simp add: erase_heap_def)

lemma length_erase_heap [simp]: "length (erase_heap h a nd) = length h"
  by (simp add: erase_heap_def)

lemma erase_links_sel [simp]:
  "data (erase_links nd b n) = data n"
  "next (erase_links nd b n) = (if prev nd = Some b then next nd else next n)"
  "prev (erase_links nd b n) = (if next nd = Some b then prev nd else prev n)"
  "list_next (erase_links nd b n) = (if list_prev nd = Some b then list_next nd else list_next n)"
  "list_prev (erase_links nd b n) = (if list_next nd = Some b then list_prev nd else list_prev n)"
  by (simp_all add: erase_links_def)

lemma erase_heap_key:
  "b \<noteq> a \<Longrightarrow> lookup h b \<noteq> None \<Longrightarrow> key_of (erase_heap h a nd) b = key_of h b"
  by (auto simp: key_of_def erase_heap_lookup)

lemma erase_heap_entry:
  "b \<noteq> a \<Longrightarrow> lookup h b \<noteq> None \<Longrightarrow> entry_of (erase_heap h a nd) b = entry_of h b"
  by (auto simp: entry_of_def erase_heap_lookup)

lemma erase_inv:
  assumes inv: "map_inv hasher h m ord chs" and a: "a \<in> set ord" and nd: "lookup h a = Some nd"
  defines "i \<equiv> hasher (fst (data nd)) mod bucket_count m"
  shows "map_inv hasher (erase_heap h a nd) (erase_header hasher nd m) (remove1 a ord)
           (chs[i := remove1 a (chs ! i)])"
proof -
  let ?h = "erase_heap h a nd" and ?m = "erase_header hasher nd m"
  let ?ord = "remove1 a ord" and ?chs = "chs[i := remove1 a (chs ! i)]"
  let ?c = "chs ! i"
  have bc: "0 < bucket_count m" and lb: "length (buckets m) = bucket_count m"
    and lc: "length chs = bucket_count m" and d: "distinct ord"
    and dk: "distinct (map (key_of h) ord)"
    using inv by (simp_all add: map_inv_def)
  have i: "i < bucket_count m" using bc by (simp add: i_def)
  have oka: "list_next nd = succ_in ord a" "list_prev nd = pred_in ord a" "a \<in> set ?c"
    "next nd = succ_in ?c a" "prev nd = pred_in ?c a"
    using inv_node_ok[OF inv a] nd by (simp_all add: node_ok_def Let_def i_def)
  have dc: "\<And>j. j < bucket_count m \<Longrightarrow> distinct (chs ! j)" using inv by (simp add: map_inv_def)
  have bcm [simp]: "bucket_count ?m = bucket_count m" by (simp add: erase_header_def)
  have keys: "\<And>b. b \<in> set ord \<Longrightarrow> b \<noteq> a \<Longrightarrow> key_of ?h b = key_of h b"
    using inv_lookup[OF inv] by (auto simp: erase_heap_key)
  have sub: "set ?ord = set ord - {a}" using d by simp
  have chs_j: "\<And>j. j < bucket_count m \<Longrightarrow> ?chs ! j = (if j = i then remove1 a ?c else chs ! j)"
    using lc by (simp add: nth_list_update)
  have node: "node_ok hasher ?h ?m ?ord ?chs b" if b: "b \<in> set ?ord" for b
  proof -
    from b sub have bo: "b \<in> set ord" and ba: "b \<noteq> a" by auto
    from inv_lookup[OF inv bo] obtain nb where nb: "lookup h b = Some nb" by auto
    let ?j = "hasher (fst (data nb)) mod bucket_count m"
    have j: "?j < bucket_count m" using bc by simp
    have okb: "list_next nb = succ_in ord b" "list_prev nb = pred_in ord b" "b \<in> set (chs ! ?j)"
      "next nb = succ_in (chs ! ?j) b" "prev nb = pred_in (chs ! ?j) b"
      using inv_node_ok[OF inv bo] nb by (simp_all add: node_ok_def Let_def)
    have l: "lookup ?h b = Some (erase_links nd b nb)" using ba nb by (rule erase_heap_lookup)
    have ln: "(if list_prev nd = Some b then list_next nd else list_next nb) = succ_in ?ord b"
      using d ba oka okb by (simp add: succ_in_remove1 succ_pred)
    have lp: "(if list_next nd = Some b then list_prev nd else list_prev nb) = pred_in ?ord b"
      using d ba oka okb by (simp add: pred_in_remove1 succ_pred)
    show ?thesis
    proof (cases "?j = i")
      case True
      have n: "(if prev nd = Some b then next nd else next nb) = succ_in (remove1 a ?c) b"
        using dc[OF i] ba oka okb True by (simp add: succ_in_remove1 succ_pred)
      have p: "(if next nd = Some b then prev nd else prev nb) = pred_in (remove1 a ?c) b"
        using dc[OF i] ba oka okb True by (simp add: pred_in_remove1 succ_pred)
      have "b \<in> set (remove1 a ?c)" using okb True dc[OF i] ba by simp
      then show ?thesis using l ln lp n p True chs_j[OF i]
        by (simp add: node_ok_def Let_def)
    next
      case False
      have "b \<notin> set ?c"
      proof
        assume "b \<in> set ?c"
        from inv_chain_mem[OF inv i this] have "hasher (key_of h b) mod bucket_count m = i" by simp
        with nb False show False by (simp add: key_of_def)
      qed
      then have "prev nd \<noteq> Some b" "next nd \<noteq> Some b"
        using oka by (auto dest: pred_in_Some_mem succ_in_Some_mem)
      then show ?thesis using l ln lp okb False chs_j[OF j]
        by (simp add: node_ok_def Let_def)
    qed
  qed
  have bucket: "buckets ?m ! j = hdp (?chs ! j) \<and> distinct (?chs ! j) \<and>
         (\<forall>b \<in> set (?chs ! j). b \<in> set ?ord \<and> hasher (key_of ?h b) mod bucket_count ?m = j)"
    if j: "j < bucket_count m" for j
  proof -
    have old: "buckets m ! j = hdp (chs ! j)" using inv j by (simp add: map_inv_def)
    have mem: "\<And>b. b \<in> set (chs ! j) \<Longrightarrow> b \<in> set ord \<and> hasher (key_of h b) mod bucket_count m = j"
      using inv_chain_mem[OF inv j] by simp
    show ?thesis
    proof (cases "j = i")
      case True
      have hd: "buckets ?m ! i = hdp (remove1 a ?c)"
      proof (cases "prev nd")
        case None
        then have "hdp ?c = Some a" using oka dc[OF i] pred_in_eq_None[of a ?c] by auto
        then show ?thesis using None oka dc[OF i] i lb
          by (simp add: erase_header_def hdp_remove1 i_def)
      next
        case (Some p)
        then have "hdp ?c \<noteq> Some a" using oka dc[OF i] pred_in_eq_None[of a ?c] by auto
        then show ?thesis using Some old True dc[OF i]
          by (simp add: erase_header_def hdp_remove1)
      qed
      have "\<forall>b \<in> set (remove1 a ?c). b \<in> set ?ord \<and> hasher (key_of ?h b) mod bucket_count m = i"
      proof
        fix b assume "b \<in> set (remove1 a ?c)"
        then have "b \<in> set ?c" "b \<noteq> a" using dc[OF i] by auto
        with mem True keys sub show "b \<in> set ?ord \<and> hasher (key_of ?h b) mod bucket_count m = i"
          by auto
      qed
      then show ?thesis using hd True chs_j[OF i] dc[OF i] by simp
    next
      case False
      have na: "a \<notin> set (chs ! j)"
      proof
        assume "a \<in> set (chs ! j)"
        from mem[OF this] nd False show False by (simp add: key_of_def i_def)
      qed
      have "buckets ?m ! j = buckets m ! j" using False by (simp add: erase_header_def i_def split: option.splits)
      moreover have "\<forall>b \<in> set (chs ! j). b \<in> set ?ord \<and> hasher (key_of ?h b) mod bucket_count m = j"
        using mem na keys sub by (metis Diff_iff singletonD)
      ultimately show ?thesis using old False chs_j[OF j] dc[OF j] by simp
    qed
  qed
  have hd: "head ?m = hdp ?ord"
  proof (cases "list_prev nd")
    case None
    then have "hdp ord = Some a" using oka a d pred_in_eq_None[of a ord] by auto
    then show ?thesis using None oka d by (simp add: erase_header_def hdp_remove1)
  next
    case (Some p)
    then have "hdp ord \<noteq> Some a" using oka a d pred_in_eq_None[of a ord] by auto
    then show ?thesis using Some inv d by (simp add: erase_header_def hdp_remove1 map_inv_def)
  qed
  have tl: "tail ?m = lastp ?ord"
  proof (cases "list_next nd")
    case None
    then have "lastp ord = Some a" using oka a d succ_in_eq_None[of a ord] by auto
    then show ?thesis using None oka d by (simp add: erase_header_def lastp_remove1)
  next
    case (Some p)
    then have "lastp ord \<noteq> Some a" using oka a d succ_in_eq_None[of a ord] by auto
    then show ?thesis using Some inv d by (simp add: erase_header_def lastp_remove1 map_inv_def)
  qed
  have "0 < element_count m" using inv a by (cases ord) (auto simp: map_inv_def)
  then have len: "length ?ord = element_count ?m"
    using inv a by (simp add: erase_header_def length_remove1 map_inv_def)
  have mk: "map (key_of ?h) ?ord = map (key_of h) ?ord" using keys sub by auto
  have dk': "distinct (map (key_of ?h) ?ord)"
    unfolding mk using dk d by (auto simp: distinct_map intro: inj_on_subset)
  have lb': "length (buckets ?m) = bucket_count m" using lb by (simp add: erase_header_def split: option.splits)
  show ?thesis
    unfolding map_inv_def
    using bc lb' lc d hd tl len dk' node bucket by simp
qed

subsection \<open>Linking a new node\<close>

lemma insert_exec_found:
  assumes ens: "ensure_capacity hasher s = Some (h, m)"
    and inv: "map_inv hasher h m ord chs"
    and f: "find_addr h ord (fst val) = Some a"
  shows "insert_entry hasher this s val = Some ((h, m), iterator (Some a) (Some this), False)"
proof -
  have "0 < bucket_count m" "length (buckets m) = bucket_count m"
    using inv by (simp_all add: map_inv_def)
  then show ?thesis
    using inv_chain_walk[OF inv, of "fst val"] f ens
    by (simp add: insert_entry_def hash_index_def bucket_at_def)
qed

lemma insert_exec_new:
  assumes ens: "ensure_capacity hasher s = Some (h, m)"
    and inv: "map_inv hasher h m ord chs"
    and f: "find_addr h ord (fst val) = None"
  shows "insert_entry hasher this s val =
           Some ((insert_heap h val (buckets m ! (hasher (fst val) mod bucket_count m)) (tail m),
                  insert_header (length h) (hasher (fst val) mod bucket_count m) m),
                 iterator (Some (length h)) (Some this), True)"
proof -
  let ?i = "hasher (fst val) mod bucket_count m"
  let ?first = "buckets m ! ?i"
  let ?h1 = "upd (h @ [Some (new_Node val)]) (length h) (\<lambda>n. n\<lparr>next := ?first\<rparr>)"
  let ?h2 = "upd_opt ?h1 ?first (\<lambda>n. n\<lparr>prev := Some (length h)\<rparr>)"
  have bc: "0 < bucket_count m" "length (buckets m) = bucket_count m"
    using inv by (simp_all add: map_inv_def)
  have i: "?i < bucket_count m" using bc by simp
  have first: "?first = hdp (chs ! ?i)" using inv i by (simp add: map_inv_def)
  have fa: "\<And>p. ?first = Some p \<Longrightarrow> lookup h p \<noteq> None \<and> p \<noteq> length h"
  proof -
    fix p assume "?first = Some p"
    then have "p \<in> set (chs ! ?i)" using first by (auto dest: hdp_in_set)
    then have "p \<in> set ord" using inv_chain_mem[OF inv i] by simp
    then show "lookup h p \<noteq> None \<and> p \<noteq> length h"
      using inv_lookup[OF inv] by (auto dest: lookup_Some_less)
  qed
  have ht: "head m = None \<longleftrightarrow> tail m = None" using inv by (simp add: map_inv_def)
  have ta: "\<And>t. tail m = Some t \<Longrightarrow> lookup h t \<noteq> None \<and> t \<noteq> length h"
  proof -
    fix t assume "tail m = Some t"
    then have "lastp ord = Some t" using inv by (simp add: map_inv_def)
    then have "t \<in> set ord" by (rule lastp_in_set)
    then show "lookup h t \<noteq> None \<and> t \<noteq> length h"
      using inv_lookup[OF inv] by (auto dest: lookup_Some_less)
  qed
  have s1: "modify (h @ [Some (new_Node val)]) (length h) (\<lambda>n. n\<lparr>next := ?first\<rparr>) = Some ?h1"
    by (simp add: modify_eq)
  have s2: "(case ?first of None \<Rightarrow> Some ?h1
                     | Some b \<Rightarrow> modify ?h1 b (\<lambda>n. n\<lparr>prev := Some (length h)\<rparr>)) = Some ?h2"
    using fa by (intro modify_opt_eq) auto
  show ?thesis
  proof (cases "head m")
    case None
    then show ?thesis
      using ens bc inv_chain_walk[OF inv, of "fst val"] f ht
      by (simp add: insert_entry_def hash_index_def bucket_at_def alloc_def Let_def s1 s2
            insert_header_def insert_heap_def)
  next
    case (Some x)
    then obtain t where t: "tail m = Some t" using ht by auto
    show ?thesis
      using ens bc inv_chain_walk[OF inv, of "fst val"] f Some t ta[OF t] fa
      by (simp add: insert_entry_def hash_index_def bucket_at_def alloc_def Let_def s1 s2
            insert_header_def insert_heap_def modify_eq)
  qed
qed

subsection \<open>Insertion keeps the container well formed\<close>

lemma insert_links_sel [simp]:
  "data (insert_links new_node first lst b n) = data n"
  "next (insert_links new_node first lst b n) = next n"
  "prev (insert_links new_node first lst b n) = (if first = Some b then Some new_node else prev n)"
  "list_next (insert_links new_node first lst b n) = (if lst = Some b then Some new_node else list_next n)"
  "list_prev (insert_links new_node first lst b n) = list_prev n"
  by (simp_all add: insert_links_def)

lemma insert_heap_old:
  "b \<noteq> length h \<Longrightarrow> lookup h b = Some nb \<Longrightarrow>
   lookup (insert_heap h val first lst) b = Some (insert_links (length h) first lst b nb)"
  by (cases lst) (auto simp: insert_heap_def insert_links_def Let_def)

lemma insert_heap_None:
  "b \<noteq> length h \<Longrightarrow> lookup h b = None \<Longrightarrow> lookup (insert_heap h val first lst) b = None"
  by (cases lst) (auto simp: insert_heap_def Let_def)

lemma insert_heap_key:
  "b \<noteq> length h \<Longrightarrow> lookup h b \<noteq> None \<Longrightarrow> key_of (insert_heap h val first lst) b = key_of h b"
  by (auto simp: key_of_def insert_heap_old)

lemma insert_heap_entry:
  "b \<noteq> length h \<Longrightarrow> lookup h b \<noteq> None \<Longrightarrow> entry_of (insert_heap h val first lst) b = entry_of h b"
  by (auto simp: entry_of_def insert_heap_old)

lemma insert_heap_new:
  "first \<noteq> Some (length h) \<Longrightarrow> lst \<noteq> Some (length h) \<Longrightarrow>
   lookup (insert_heap h val first lst) (length h)
     = Some \<lparr>data = val, next = first, prev = None, list_next = None, list_prev = lst\<rparr>"
  by (cases lst) (simp_all add: insert_heap_def Let_def new_Node_def)

lemma length_insert_heap [simp]: "length (insert_heap h val first lst) = Suc (length h)"
  by (cases lst) (simp_all add: insert_heap_def Let_def)

lemma inv_ord_less: "map_inv hasher h m ord chs \<Longrightarrow> a \<in> set ord \<Longrightarrow> a < length h"
  using inv_lookup by (blast dest: lookup_Some_less)

lemma insert_inv:
  assumes inv: "map_inv hasher h m ord chs" and f: "find_addr h ord (fst val) = None"
  defines "i \<equiv> hasher (fst val) mod bucket_count m"
  shows "map_inv hasher (insert_heap h val (buckets m ! i) (tail m)) (insert_header (length h) i m)
           (ord @ [length h]) (chs[i := length h # chs ! i])"
proof -
  let ?new = "length h"
  let ?h = "insert_heap h val (buckets m ! i) (tail m)" and ?m = "insert_header ?new i m"
  let ?ord = "ord @ [?new]" and ?chs = "chs[i := ?new # chs ! i]"
  let ?c = "chs ! i"
  have bc: "0 < bucket_count m" and lb: "length (buckets m) = bucket_count m"
    and lc: "length chs = bucket_count m" and d: "distinct ord"
    and dk: "distinct (map (key_of h) ord)" and hd: "head m = hdp ord" and tl: "tail m = lastp ord"
    using inv by (simp_all add: map_inv_def)
  have i: "i < bucket_count m" using bc by (simp add: i_def)
  have first: "buckets m ! i = hdp ?c" using inv i by (simp add: map_inv_def)
  have dc: "\<And>j. j < bucket_count m \<Longrightarrow> distinct (chs ! j)" using inv by (simp add: map_inv_def)
  have new_ord: "?new \<notin> set ord" using inv_ord_less[OF inv] by auto
  have new_c: "\<And>j. j < bucket_count m \<Longrightarrow> ?new \<notin> set (chs ! j)"
    using inv_chain_mem[OF inv] new_ord by blast
  have f1: "buckets m ! i \<noteq> Some ?new" using first new_c[OF i] by (auto dest: hdp_in_set)
  have f2: "tail m \<noteq> Some ?new" using tl new_ord by (auto dest: lastp_in_set)
  have bcm [simp]: "bucket_count ?m = bucket_count m" by (simp add: insert_header_def)
  have lnew: "lookup ?h ?new = Some \<lparr>data = val, next = buckets m ! i, prev = None, list_next = None, list_prev = tail m\<rparr>"
    using f1 f2 by (rule insert_heap_new)
  have keys: "\<And>b. b \<in> set ord \<Longrightarrow> key_of ?h b = key_of h b"
    using inv_lookup[OF inv] new_ord by (intro insert_heap_key) auto
  have knew: "key_of ?h ?new = fst val" using lnew by (simp add: key_of_def)
  have chs_j: "\<And>j. j < bucket_count m \<Longrightarrow> ?chs ! j = (if j = i then ?new # ?c else chs ! j)"
    using lc by (simp add: nth_list_update)
  have node_old: "node_ok hasher ?h ?m ?ord ?chs b" if bo: "b \<in> set ord" for b
  proof -
    from bo new_ord have bn: "b \<noteq> ?new" by auto
    from inv_lookup[OF inv bo] obtain nb where nb: "lookup h b = Some nb" by auto
    let ?j = "hasher (fst (data nb)) mod bucket_count m"
    have j: "?j < bucket_count m" using bc by simp
    have okb: "list_next nb = succ_in ord b" "list_prev nb = pred_in ord b" "b \<in> set (chs ! ?j)"
      "next nb = succ_in (chs ! ?j) b" "prev nb = pred_in (chs ! ?j) b"
      using inv_node_ok[OF inv bo] nb by (simp_all add: node_ok_def Let_def)
    have l: "lookup ?h b = Some (insert_links ?new (buckets m ! i) (tail m) b nb)"
      using bn nb by (rule insert_heap_old)
    have ln: "(if tail m = Some b then Some ?new else list_next nb) = succ_in ?ord b"
      using d new_ord okb tl by (simp add: succ_in_snoc)
    have lp: "list_prev nb = pred_in ?ord b"
      using bn okb by (simp add: pred_in_snoc)
    show ?thesis
    proof (cases "?j = i")
      case True
      have n: "next nb = succ_in (?new # ?c) b" using bn okb True by simp
      have p: "(if buckets m ! i = Some b then Some ?new else prev nb) = pred_in (?new # ?c) b"
        using dc[OF i] new_c[OF i] okb True first by (simp add: pred_in_Cons)
      show ?thesis using l ln lp n p True chs_j[OF i] okb
        by (simp add: node_ok_def Let_def)
    next
      case False
      have "b \<notin> set ?c"
      proof
        assume "b \<in> set ?c"
        from inv_chain_mem[OF inv i this] have "hasher (key_of h b) mod bucket_count m = i" by simp
        with nb False show False by (simp add: key_of_def)
      qed
      then have "buckets m ! i \<noteq> Some b" using first by (auto dest: hdp_in_set)
      then show ?thesis using l ln lp okb False chs_j[OF j]
        by (simp add: node_ok_def Let_def)
    qed
  qed
  have node_new: "node_ok hasher ?h ?m ?ord ?chs ?new"
  proof -
    have "succ_in ?ord ?new = None" using d new_ord tl f2 by (simp add: succ_in_snoc)
    moreover have "pred_in ?ord ?new = tail m" using tl by (simp add: pred_in_snoc)
    moreover have "succ_in (?new # ?c) ?new = buckets m ! i" using first by simp
    moreover have "pred_in (?new # ?c) ?new = None"
      using dc[OF i] new_c[OF i] first f1 by (simp add: pred_in_Cons)
    ultimately show ?thesis using lnew chs_j[OF i]
      by (simp add: node_ok_def Let_def flip: i_def)
  qed
  have bucket: "buckets ?m ! j = hdp (?chs ! j) \<and> distinct (?chs ! j) \<and>
         (\<forall>b \<in> set (?chs ! j). b \<in> set ?ord \<and> hasher (key_of ?h b) mod bucket_count ?m = j)"
    if j: "j < bucket_count m" for j
  proof -
    have old: "buckets m ! j = hdp (chs ! j)" using inv j by (simp add: map_inv_def)
    have mem: "\<And>b. b \<in> set (chs ! j) \<Longrightarrow> b \<in> set ord \<and> hasher (key_of ?h b) mod bucket_count m = j"
      using inv_chain_mem[OF inv j] keys by simp
    show ?thesis
    proof (cases "j = i")
      case True
      have "buckets ?m ! i = Some ?new" using i lb by (simp add: insert_header_def)
      moreover have "hasher (key_of ?h ?new) mod bucket_count m = i" using knew by (simp add: i_def)
      ultimately show ?thesis using True chs_j[OF i] dc[OF i] new_c[OF i] mem by auto
    next
      case False
      have "buckets ?m ! j = buckets m ! j" using False by (simp add: insert_header_def)
      then show ?thesis using old False chs_j[OF j] dc[OF j] mem by auto
    qed
  qed
  have hd': "head ?m = hdp ?ord"
    using hd by (cases ord) (simp_all add: insert_header_def)
  have tl': "tail ?m = lastp ?ord" by (simp add: insert_header_def)
  have len: "length ?ord = element_count ?m"
    using inv by (simp add: insert_header_def map_inv_def)
  have mk: "map (key_of ?h) ord = map (key_of h) ord" using keys by auto
  have "fst val \<notin> key_of h ` set ord" using f by (simp add: find_addr_None)
  then have dk': "distinct (map (key_of ?h) ?ord)"
    using dk knew by (simp add: mk)
  have lb': "length (buckets ?m) = bucket_count m" using lb by (simp add: insert_header_def)
  have node: "\<forall>b \<in> set ?ord. node_ok hasher ?h ?m ?ord ?chs b"
    using node_old node_new by auto
  show ?thesis
    unfolding map_inv_def
    using bc lb' lc d new_ord hd' tl' len dk' node bucket by simp
qed

subsection \<open>Rehashing\<close>

lemma rh_inv_init: "rh_inv hasher nc h0 h0 (replicate nc None) (replicate nc []) {}"
  by (simp add: rh_inv_def)

lemma rehash_chain_unfold:
  assumes nc: "0 < nc" and c: "lookup h c = Some n0"
    and len: "length nb = nc"
    and hd: "\<And>b. nb ! (hasher (fst (data n0)) mod nc) = Some b \<Longrightarrow> lookup h b \<noteq> None"
  shows "rehash_chain hasher nc (h, nb) (Some c) =
         rehash_chain hasher nc
           (rehash_step_heap h c (nb ! (hasher (fst (data n0)) mod nc)),
            nb[hasher (fst (data n0)) mod nc := Some c]) (next n0)"
proof -
  let ?ni = "hasher (fst (data n0)) mod nc"
  let ?h1 = "upd h c (\<lambda>n. n\<lparr>next := nb ! ?ni\<rparr>)"
  let ?h2 = "upd_opt ?h1 (nb ! ?ni) (\<lambda>n. n\<lparr>prev := Some c\<rparr>)"
  have s1: "modify h c (\<lambda>n. n\<lparr>next := nb ! ?ni\<rparr>) = Some ?h1" using c by (simp add: modify_eq)
  have s2: "(case nb ! ?ni of None \<Rightarrow> Some ?h1
                       | Some b \<Rightarrow> modify ?h1 b (\<lambda>n. n\<lparr>prev := Some c\<rparr>)) = Some ?h2"
    using hd c by (intro modify_opt_eq) auto
  have s3: "modify ?h2 c (\<lambda>n. n\<lparr>prev := None\<rparr>) = Some (rehash_step_heap h c (nb ! ?ni))"
    using c by (simp add: modify_eq rehash_step_heap_def)
  show ?thesis
    using nc c len
    by (subst rehash_chain.simps) (simp add: bucket_at_def s1 s2 s3)
qed

lemma rh_step:
  assumes rh: "rh_inv hasher nc h0 h nb nchs P" and nc: "0 < nc"
    and cP: "c \<notin> P" and c0: "lookup h0 c = Some n0"
  defines "ni \<equiv> hasher (fst (data n0)) mod nc"
  shows "rh_inv hasher nc h0 (rehash_step_heap h c (nb ! ni)) (nb[ni := Some c])
           (nchs[ni := c # nchs ! ni]) (insert c P)"
proof -
  let ?h = "rehash_step_heap h c (nb ! ni)"
  let ?old = "nchs ! ni"
  let ?nchs = "nchs[ni := c # ?old]"
  have ln: "length nb = nc" and lc: "length nchs = nc" and lh: "length h = length h0"
    and out: "\<And>a. a \<notin> P \<Longrightarrow> lookup h a = lookup h0 a"
    using rh by (simp_all add: rh_inv_def)
  have ni: "ni < nc" using nc by (simp add: ni_def)
  have bk: "\<And>j. j < nc \<Longrightarrow> nb ! j = hdp (nchs ! j) \<and> distinct (nchs ! j) \<and>
          (\<forall>a \<in> set (nchs ! j). a \<in> P \<and> hasher (key_of h0 a) mod nc = j)"
    using rh by (simp add: rh_inv_def)
  have inP: "\<And>a. a \<in> P \<Longrightarrow> \<exists>n0 n. lookup h0 a = Some n0 \<and> lookup h a = Some n \<and>
          data n = data n0 \<and> list_next n = list_next n0 \<and> list_prev n = list_prev n0 \<and>
          a \<in> set (nchs ! (hasher (key_of h0 a) mod nc)) \<and>
          next n = succ_in (nchs ! (hasher (key_of h0 a) mod nc)) a \<and>
          prev n = pred_in (nchs ! (hasher (key_of h0 a) mod nc)) a"
    using rh by (simp add: rh_inv_def)
  have c: "lookup h c = Some n0" using out[OF cP] c0 by simp
  have kc: "hasher (key_of h0 c) mod nc = ni" using c0 by (simp add: key_of_def ni_def)
  have c_old: "c \<notin> set ?old" using bk[OF ni] cP by auto
  have hd_ne: "nb ! ni \<noteq> Some c" using bk[OF ni] c_old by (auto dest: hdp_in_set)
  have nchs_j: "\<And>j. j < nc \<Longrightarrow> ?nchs ! j = (if j = ni then c # ?old else nchs ! j)"
    using lc by (simp add: nth_list_update)
  have lk_c: "lookup ?h c = Some (n0\<lparr>next := nb ! ni, prev := None\<rparr>)"
    using c hd_ne by (simp add: rehash_step_heap_def)
  have lk_o: "\<And>b. b \<noteq> c \<Longrightarrow> lookup ?h b
      = (if nb ! ni = Some b then map_option (\<lambda>n. n\<lparr>prev := Some c\<rparr>) (lookup h b) else lookup h b)"
    by (simp add: rehash_step_heap_def)
  have hdP: "\<And>b. nb ! ni = Some b \<Longrightarrow> b \<in> P"
    using bk[OF ni] by (auto dest: hdp_in_set)
  have g1: "\<forall>a. a \<notin> insert c P \<longrightarrow> lookup ?h a = lookup h0 a"
    using lk_o out hdP by auto
  have g2: "\<exists>n0 n. lookup h0 a = Some n0 \<and> lookup ?h a = Some n \<and>
          data n = data n0 \<and> list_next n = list_next n0 \<and> list_prev n = list_prev n0 \<and>
          a \<in> set (?nchs ! (hasher (key_of h0 a) mod nc)) \<and>
          next n = succ_in (?nchs ! (hasher (key_of h0 a) mod nc)) a \<and>
          prev n = pred_in (?nchs ! (hasher (key_of h0 a) mod nc)) a"
    if a: "a \<in> insert c P" for a
  proof (cases "a = c")
    case True
    have "pred_in (c # ?old) c = None"
      using c_old bk[OF ni] hd_ne by (simp add: pred_in_Cons)
    moreover have "succ_in (c # ?old) c = nb ! ni" using bk[OF ni] by simp
    ultimately show ?thesis using True c0 lk_c kc nchs_j[OF ni] by simp
  next
    case False
    with a have aP: "a \<in> P" by simp
    from inP[OF aP] obtain m0 n where n: "lookup h0 a = Some m0" "lookup h a = Some n"
          "data n = data m0" "list_next n = list_next m0" "list_prev n = list_prev m0"
          "a \<in> set (nchs ! (hasher (key_of h0 a) mod nc))"
          "next n = succ_in (nchs ! (hasher (key_of h0 a) mod nc)) a"
          "prev n = pred_in (nchs ! (hasher (key_of h0 a) mod nc)) a" by blast
    let ?j = "hasher (key_of h0 a) mod nc"
    have j: "?j < nc" using nc by simp
    show ?thesis
    proof (cases "?j = ni")
      case True
      have "pred_in (c # ?old) a = (if nb ! ni = Some a then Some c else pred_in ?old a)"
        using c_old bk[OF ni] by (simp add: pred_in_Cons)
      moreover have "succ_in (c # ?old) a = succ_in ?old a" using False by simp
      ultimately show ?thesis using n True False lk_o[OF False] nchs_j[OF ni]
        by auto
    next
      case F: False
      have "a \<notin> set ?old" using bk[OF ni] F by auto
      then have "nb ! ni \<noteq> Some a" using bk[OF ni] by (auto dest: hdp_in_set)
      then show ?thesis using n F False lk_o[OF False] nchs_j[OF j] by simp
    qed
  qed
  have g3: "nb[ni := Some c] ! j = hdp (?nchs ! j) \<and> distinct (?nchs ! j) \<and>
          (\<forall>a \<in> set (?nchs ! j). a \<in> insert c P \<and> hasher (key_of h0 a) mod nc = j)"
    if j: "j < nc" for j
  proof (cases "j = ni")
    case True
    then show ?thesis using bk[OF ni] ni ln nchs_j[OF ni] c_old kc by auto
  next
    case False
    then show ?thesis using bk[OF j] j ln nchs_j[OF j] by auto
  qed
  have lh': "length ?h = length h0" using lh by (simp add: rehash_step_heap_def)
  show ?thesis
    unfolding rh_inv_def
    using ln lc lh' g1 g2 g3 by simp
qed

subsection \<open>The loops of rehash\<close>

lemma rehash_chain_inv:
  assumes nc: "0 < nc"
  shows "rh_inv hasher nc h0 h nb nchs P \<Longrightarrow> linked h0 next rs \<Longrightarrow> set rs \<inter> P = {} \<Longrightarrow>
         \<exists>h' nb' nchs'. rehash_chain hasher nc (h, nb) (hdp rs) = Some (h', nb') \<and>
                         rh_inv hasher nc h0 h' nb' nchs' (P \<union> set rs)"
proof (induction rs arbitrary: h nb nchs P)
  case Nil
  then show ?case by (subst rehash_chain.simps) auto
next
  case (Cons c rs)
  from Cons.prems(2) obtain n0 where n0: "lookup h0 c = Some n0" "next n0 = hdp rs"
    and crs: "c \<notin> set rs" and l: "linked h0 next rs"
    by (auto simp: linked_Cons)
  have cP: "c \<notin> P" using Cons.prems(3) by auto
  let ?ni = "hasher (fst (data n0)) mod nc"
  have ln: "length nb = nc" and out: "\<And>a. a \<notin> P \<Longrightarrow> lookup h a = lookup h0 a"
    using Cons.prems(1) by (simp_all add: rh_inv_def)
  have c: "lookup h c = Some n0" using out[OF cP] n0 by simp
  have hd: "\<And>b. nb ! ?ni = Some b \<Longrightarrow> lookup h b \<noteq> None"
  proof -
    fix b assume b: "nb ! ?ni = Some b"
    have "?ni < nc" using nc by simp
    with Cons.prems(1) b have "b \<in> P" by (auto simp: rh_inv_def dest: hdp_in_set)
    with Cons.prems(1) show "lookup h b \<noteq> None" by (auto simp: rh_inv_def)
  qed
  have step: "rh_inv hasher nc h0 (rehash_step_heap h c (nb ! ?ni)) (nb[?ni := Some c])
           (nchs[?ni := c # nchs ! ?ni]) (insert c P)"
    using rh_step[OF Cons.prems(1) nc cP n0(1)] .
  have disj: "set rs \<inter> insert c P = {}" using Cons.prems(3) crs by auto
  from Cons.IH[OF step l disj] obtain h' nb' nchs' where
    r: "rehash_chain hasher nc (rehash_step_heap h c (nb ! ?ni), nb[?ni := Some c]) (hdp rs) = Some (h', nb')"
    and rh': "rh_inv hasher nc h0 h' nb' nchs' (insert c P \<union> set rs)" by blast
  have "rehash_chain hasher nc (h, nb) (hdp (c # rs)) = Some (h', nb')"
    using rehash_chain_unfold[OF nc c ln hd, of hasher] r n0 by simp
  moreover have "insert c P \<union> set rs = P \<union> set (c # rs)" by auto
  ultimately show ?case using rh' by metis
qed

lemma rehash_from_inv:
  assumes inv: "map_inv hasher h0 m ord chs" and nc: "0 < nc"
  shows "i \<le> bucket_count m \<Longrightarrow> rh_inv hasher nc h0 h nb nchs (\<Union>j<i. set (chs ! j)) \<Longrightarrow>
         \<exists>h' nb' nchs'. rehash_from hasher nc m i (h, nb) = Some (h', nb') \<and>
                         rh_inv hasher nc h0 h' nb' nchs' (\<Union>j<bucket_count m. set (chs ! j))"
proof (induction "bucket_count m - i" arbitrary: i h nb nchs)
  case 0
  then have "i = bucket_count m" by simp
  with 0 show ?case by (subst rehash_from.simps) auto
next
  case (Suc k)
  then have i: "i < bucket_count m" by simp
  have l: "linked h0 next (chs ! i)" using inv_chain_linked[OF inv i] .
  have disj: "set (chs ! i) \<inter> (\<Union>j<i. set (chs ! j)) = {}"
  proof (rule ccontr)
    assume "set (chs ! i) \<inter> (\<Union>j<i. set (chs ! j)) \<noteq> {}"
    then obtain a j where a: "a \<in> set (chs ! i)" "j < i" "a \<in> set (chs ! j)" by auto
    from a(2) i have j: "j < bucket_count m" by simp
    from inv_chain_mem[OF inv i a(1)] inv_chain_mem[OF inv j a(3)] a(2) show False by simp
  qed
  from rehash_chain_inv[OF nc Suc.prems(2) l disj] obtain h1 nb1 nchs1 where
    r1: "rehash_chain hasher nc (h, nb) (hdp (chs ! i)) = Some (h1, nb1)"
    and rh1: "rh_inv hasher nc h0 h1 nb1 nchs1 ((\<Union>j<i. set (chs ! j)) \<union> set (chs ! i))" by blast
  have "(\<Union>j<i. set (chs ! j)) \<union> set (chs ! i) = (\<Union>j<Suc i. set (chs ! j))"
    by (auto simp: less_Suc_eq)
  with rh1 have rh1': "rh_inv hasher nc h0 h1 nb1 nchs1 (\<Union>j<i + 1. set (chs ! j))" by simp
  have k: "k = bucket_count m - (i + 1)" using Suc.hyps(2) by simp
  have i1: "i + 1 \<le> bucket_count m" using i by simp
  from Suc.hyps(1)[OF k i1 rh1'] obtain h' nb' nchs' where
    r: "rehash_from hasher nc m (i + 1) (h1, nb1) = Some (h', nb')"
    and rh': "rh_inv hasher nc h0 h' nb' nchs' (\<Union>j<bucket_count m. set (chs ! j))" by blast
  have bi: "bucket_at (buckets m) i = Some (hdp (chs ! i))"
    using inv i by (simp add: bucket_at_def map_inv_def)
  have "rehash_from hasher nc m i (h, nb) = Some (h', nb')"
    using i bi r1 r by (subst rehash_from.simps) simp
  with rh' show ?case by blast
qed

lemma inv_chains_union:
  assumes inv: "map_inv hasher h m ord chs"
  shows "(\<Union>j<bucket_count m. set (chs ! j)) = set ord"
proof
  show "(\<Union>j<bucket_count m. set (chs ! j)) \<subseteq> set ord"
    using inv_chain_mem[OF inv] by auto
next
  show "set ord \<subseteq> (\<Union>j<bucket_count m. set (chs ! j))"
  proof
    fix a assume a: "a \<in> set ord"
    from inv_lookup[OF inv a] obtain nd where nd: "lookup h a = Some nd" by auto
    with inv_node_ok[OF inv a] have "a \<in> set (chs ! (hasher (fst (data nd)) mod bucket_count m))"
      by (simp add: node_ok_def Let_def)
    moreover have "hasher (fst (data nd)) mod bucket_count m < bucket_count m"
      using inv_pos[OF inv] by simp
    ultimately show "a \<in> (\<Union>j<bucket_count m. set (chs ! j))" by blast
  qed
qed

lemma rehash_inv:
  assumes inv: "map_inv hasher h m ord chs" and nc: "0 < nc"
  shows "\<exists>h' nb chs'. rehash hasher nc (h, m) = Some (h', m\<lparr>buckets := nb, bucket_count := nc\<rparr>) \<and>
           map_inv hasher h' (m\<lparr>buckets := nb, bucket_count := nc\<rparr>) ord chs' \<and>
           same_order h h' \<and> (\<forall>a. a \<notin> set ord \<longrightarrow> lookup h' a = lookup h a)"
proof -
  have init: "rh_inv hasher nc h h (replicate nc None) (replicate nc []) (\<Union>j<0. set (chs ! j))"
    using rh_inv_init[of hasher nc h] by simp
  from rehash_from_inv[OF inv nc _ init] obtain h' nb chs' where
    r: "rehash_from hasher nc m 0 (h, replicate nc None) = Some (h', nb)"
    and rh: "rh_inv hasher nc h h' nb chs' (\<Union>j<bucket_count m. set (chs ! j))" by auto
  from rh have rh: "rh_inv hasher nc h h' nb chs' (set ord)"
    by (simp add: inv_chains_union[OF inv])
  let ?m = "m\<lparr>buckets := nb, bucket_count := nc\<rparr>"
  have ex: "rehash hasher nc (h, m) = Some (h', ?m)" using r by (simp add: rehash_def)
  have out: "\<And>a. a \<notin> set ord \<Longrightarrow> lookup h' a = lookup h a"
    using rh by (simp add: rh_inv_def)
  have inP: "\<And>a. a \<in> set ord \<Longrightarrow> \<exists>n0 n. lookup h a = Some n0 \<and> lookup h' a = Some n \<and>
          data n = data n0 \<and> list_next n = list_next n0 \<and> list_prev n = list_prev n0 \<and>
          a \<in> set (chs' ! (hasher (key_of h a) mod nc)) \<and>
          next n = succ_in (chs' ! (hasher (key_of h a) mod nc)) a \<and>
          prev n = pred_in (chs' ! (hasher (key_of h a) mod nc)) a"
    using rh by (simp add: rh_inv_def)
  have so: "same_order h h'"
    unfolding same_order_def
  proof (intro conjI allI)
    show "length h' = length h" using rh by (simp add: rh_inv_def)
  next
    fix a
    show "rel_option (\<lambda>n n'. data n' = data n \<and> list_next n' = list_next n \<and>
                               list_prev n' = list_prev n) (lookup h a) (lookup h' a)"
    proof (cases "a \<in> set ord")
      case True
      from inP[OF True] show ?thesis by auto
    next
      case False
      then show ?thesis using out by (cases "lookup h a") auto
    qed
  qed
  have keys: "\<And>a. a \<in> set ord \<Longrightarrow> key_of h' a = key_of h a"
    using inP by (fastforce simp: key_of_def)
  have mk: "map (key_of h') ord = map (key_of h) ord" using keys by auto
  have node: "node_ok hasher h' ?m ord chs' a" if a: "a \<in> set ord" for a
  proof -
    from inP[OF a] obtain n0 n where n: "lookup h a = Some n0" "lookup h' a = Some n"
          "data n = data n0" "list_next n = list_next n0" "list_prev n = list_prev n0"
          "a \<in> set (chs' ! (hasher (key_of h a) mod nc))"
          "next n = succ_in (chs' ! (hasher (key_of h a) mod nc)) a"
          "prev n = pred_in (chs' ! (hasher (key_of h a) mod nc)) a" by blast
    have "list_next n0 = succ_in ord a" "list_prev n0 = pred_in ord a"
      using inv_node_ok[OF inv a] n by (simp_all add: node_ok_def Let_def)
    then show ?thesis using n by (simp add: node_ok_def Let_def key_of_def)
  qed
  have bk: "\<And>j. j < nc \<Longrightarrow> nb ! j = hdp (chs' ! j) \<and> distinct (chs' ! j) \<and>
          (\<forall>a \<in> set (chs' ! j). a \<in> set ord \<and> hasher (key_of h' a) mod nc = j)"
    using rh keys by (auto simp: rh_inv_def)
  have dk: "distinct (map (key_of h') ord)" unfolding mk using inv by (simp add: map_inv_def)
  have ln: "length nb = nc" "length chs' = nc" using rh by (simp_all add: rh_inv_def)
  have old: "distinct ord" "length ord = element_count m" "head m = hdp ord" "tail m = lastp ord"
    using inv by (simp_all add: map_inv_def)
  have "map_inv hasher h' ?m ord chs'"
    unfolding map_inv_def
    using nc ln old dk node bk by simp
  with ex so out show ?thesis by blast
qed

subsection \<open>The operations preserve well-formedness\<close>

lemma same_order_refl [simp]: "same_order h h"
  by (simp add: same_order_def option.rel_refl)

lemma same_order_entry: "same_order h h' \<Longrightarrow> entry_of h' a = entry_of h a"
proof -
  assume "same_order h h'"
  then have "rel_option (\<lambda>n n'. data n' = data n \<and> list_next n' = list_next n \<and>
                               list_prev n' = list_prev n) (lookup h a) (lookup h' a)"
    by (simp add: same_order_def)
  then show ?thesis by (cases "lookup h a"; cases "lookup h' a") (simp_all add: entry_of_def)
qed

lemma same_order_key: "same_order h h' \<Longrightarrow> key_of h' a = key_of h a"
  using same_order_entry[of h h' a] by (simp add: key_of_def entry_of_def)

lemma same_order_find_addr: "same_order h h' \<Longrightarrow> find_addr h' cs k = find_addr h cs k"
  by (simp add: find_addr_def same_order_key)

lemma same_order_lookup_None: "same_order h h' \<Longrightarrow> lookup h' a = None \<longleftrightarrow> lookup h a = None"
proof -
  assume "same_order h h'"
  then have "rel_option (\<lambda>n n'. data n' = data n \<and> list_next n' = list_next n \<and>
                               list_prev n' = list_prev n) (lookup h a) (lookup h' a)"
    by (simp add: same_order_def)
  then show ?thesis by (cases "lookup h a"; cases "lookup h' a") simp_all
qed

lemma ensure_inv:
  assumes inv: "map_inv hasher h m ord chs"
  shows "\<exists>h1 m1 chs1. ensure_capacity hasher (h, m) = Some (h1, m1) \<and>
           map_inv hasher h1 m1 ord chs1 \<and> same_order h h1 \<and>
           (\<forall>a. a \<notin> set ord \<longrightarrow> lookup h1 a = lookup h a) \<and>
           head m1 = head m \<and> tail m1 = tail m \<and> element_count m1 = element_count m \<and>
           bucket_count m1 = (if 3 * bucket_count m \<le> 4 * element_count m
                              then bucket_count m * 2 else bucket_count m)"
proof (cases "3 * bucket_count m \<le> 4 * element_count m")
  case True
  have "0 < bucket_count m * 2" using inv_pos[OF inv] by simp
  from rehash_inv[OF inv this] obtain h' nb chs' where
    r: "rehash hasher (bucket_count m * 2) (h, m) = Some (h', m\<lparr>buckets := nb, bucket_count := bucket_count m * 2\<rparr>)"
    and i': "map_inv hasher h' (m\<lparr>buckets := nb, bucket_count := bucket_count m * 2\<rparr>) ord chs'"
    and so: "same_order h h'" and fr: "\<forall>a. a \<notin> set ord \<longrightarrow> lookup h' a = lookup h a" by blast
  have "ensure_capacity hasher (h, m) = Some (h', m\<lparr>buckets := nb, bucket_count := bucket_count m * 2\<rparr>)"
    using True r by (simp add: ensure_capacity_def)
  with i' so fr True show ?thesis by fastforce
next
  case False
  then have "ensure_capacity hasher (h, m) = Some (h, m)" by (simp add: ensure_capacity_def)
  with inv False show ?thesis by fastforce
qed

lemma insert_new_inv:
  assumes inv: "map_inv hasher h m ord chs" and f: "find_addr h ord (fst val) = None"
  shows "\<exists>h' m' chs'. insert_entry hasher this (h, m) val
             = Some ((h', m'), iterator (Some (length h)) (Some this), True) \<and>
           map_inv hasher h' m' (ord @ [length h]) chs' \<and>
           (\<forall>a \<in> set ord. entry_of h' a = entry_of h a) \<and> entry_of h' (length h) = val \<and>
           (\<forall>a. a \<notin> set ord \<longrightarrow> a \<noteq> length h \<longrightarrow> lookup h' a = lookup h a) \<and>
           length h' = Suc (length h) \<and> element_count m' = Suc (element_count m) \<and>
           bucket_count m' = (if 3 * bucket_count m \<le> 4 * element_count m
                              then bucket_count m * 2 else bucket_count m)"
proof -
  from ensure_inv[OF inv] obtain h1 m1 chs1 where
    e: "ensure_capacity hasher (h, m) = Some (h1, m1)" and i1: "map_inv hasher h1 m1 ord chs1"
    and so: "same_order h h1" and fr: "\<And>a. a \<notin> set ord \<Longrightarrow> lookup h1 a = lookup h a"
    and ec: "element_count m1 = element_count m"
    and bc: "bucket_count m1 = (if 3 * bucket_count m \<le> 4 * element_count m
                              then bucket_count m * 2 else bucket_count m)" by blast
  have len: "length h1 = length h" using so by (simp add: same_order_def)
  have f1: "find_addr h1 ord (fst val) = None" using f so by (simp add: same_order_find_addr)
  let ?i = "hasher (fst val) mod bucket_count m1"
  let ?h = "insert_heap h1 val (buckets m1 ! ?i) (tail m1)" and ?m = "insert_header (length h1) ?i m1"
  have ex: "insert_entry hasher this (h, m) val = Some ((?h, ?m), iterator (Some (length h1)) (Some this), True)"
    using insert_exec_new[OF e i1 f1] .
  have i': "map_inv hasher ?h ?m (ord @ [length h1]) (chs1[?i := length h1 # chs1 ! ?i])"
    using insert_inv[OF i1 f1] .
  have new_ord: "length h1 \<notin> set ord" using inv_ord_less[OF i1] by auto
  have ent: "\<forall>a \<in> set ord. entry_of ?h a = entry_of h a"
  proof
    fix a assume a: "a \<in> set ord"
    then have "a \<noteq> length h1" using new_ord by auto
    moreover have "lookup h1 a \<noteq> None" using inv_lookup[OF i1 a] by auto
    ultimately have "entry_of ?h a = entry_of h1 a" by (rule insert_heap_entry)
    then show "entry_of ?h a = entry_of h a" using so by (simp add: same_order_entry)
  qed
  have lnew: "lookup ?h (length h1) = Some \<lparr>data = val, next = buckets m1 ! ?i, prev = None,
               list_next = None, list_prev = tail m1\<rparr>"
  proof (rule insert_heap_new)
    have "?i < bucket_count m1" using inv_pos[OF i1] by simp
    then have "buckets m1 ! ?i = hdp (chs1 ! ?i)" "set (chs1 ! ?i) \<subseteq> set ord"
      using i1 by (auto simp: map_inv_def)
    then show "buckets m1 ! ?i \<noteq> Some (length h1)" using new_ord by (auto dest: hdp_in_set)
    have "tail m1 = lastp ord" using i1 by (simp add: map_inv_def)
    then show "tail m1 \<noteq> Some (length h1)" using new_ord by (auto dest: lastp_in_set)
  qed
  have enew: "entry_of ?h (length h1) = val" using lnew by (simp add: entry_of_def)
  have frame: "\<forall>a. a \<notin> set ord \<longrightarrow> a \<noteq> length h \<longrightarrow> lookup ?h a = lookup h a"
  proof (intro allI impI)
    fix a assume a: "a \<notin> set ord" "a \<noteq> length h"
    have t: "tail m1 \<noteq> Some a" using i1 a(1) by (auto simp: map_inv_def dest: lastp_in_set)
    have "?i < bucket_count m1" using inv_pos[OF i1] by simp
    then have "buckets m1 ! ?i = hdp (chs1 ! ?i)" "set (chs1 ! ?i) \<subseteq> set ord"
      using i1 by (auto simp: map_inv_def)
    then have b: "buckets m1 ! ?i \<noteq> Some a" using a(1) by (auto dest: hdp_in_set)
    show "lookup ?h a = lookup h a"
    proof (cases "lookup h1 a")
      case None
      then show ?thesis using a len fr[OF a(1)] by (simp add: insert_heap_None)
    next
      case (Some nb)
      have "insert_links (length h1) (buckets m1 ! ?i) (tail m1) a nb = nb"
        using t b by (simp add: insert_links_def)
      moreover have "a \<noteq> length h1" using a len by simp
      ultimately have "lookup ?h a = Some nb" using Some by (simp add: insert_heap_old)
      then show ?thesis using fr[OF a(1)] Some by simp
    qed
  qed
  show ?thesis
    using ex i' ent enew frame len ec bc
    by (intro exI[of _ ?h] exI[of _ ?m] exI[of _ "chs1[?i := length h1 # chs1 ! ?i]"])
       (simp add: insert_header_def)
qed

lemma insert_dup_inv:
  assumes inv: "map_inv hasher h m ord chs" and f: "find_addr h ord (fst val) = Some a"
  shows "\<exists>h' m' chs'. insert_entry hasher this (h, m) val
             = Some ((h', m'), iterator (Some a) (Some this), False) \<and>
           ensure_capacity hasher (h, m) = Some (h', m') \<and>
           map_inv hasher h' m' ord chs' \<and> same_order h h' \<and>
           (\<forall>a. a \<notin> set ord \<longrightarrow> lookup h' a = lookup h a) \<and>
           element_count m' = element_count m \<and>
           bucket_count m' = (if 3 * bucket_count m \<le> 4 * element_count m
                              then bucket_count m * 2 else bucket_count m)"
proof -
  from ensure_inv[OF inv] obtain h1 m1 chs1 where
    e: "ensure_capacity hasher (h, m) = Some (h1, m1)" and i1: "map_inv hasher h1 m1 ord chs1"
    and so: "same_order h h1" and fr: "\<forall>a. a \<notin> set ord \<longrightarrow> lookup h1 a = lookup h a"
    and ec: "element_count m1 = element_count m"
    and bc: "bucket_count m1 = (if 3 * bucket_count m \<le> 4 * element_count m
                              then bucket_count m * 2 else bucket_count m)" by blast
  have f1: "find_addr h1 ord (fst val) = Some a" using f so by (simp add: same_order_find_addr)
  from insert_exec_found[OF e i1 f1] e i1 so fr ec bc show ?thesis by blast
qed

lemma erase_links_id:
  "prev nd \<noteq> Some b \<Longrightarrow> next nd \<noteq> Some b \<Longrightarrow> list_prev nd \<noteq> Some b \<Longrightarrow> list_next nd \<noteq> Some b \<Longrightarrow>
   erase_links nd b n = n"
  by (simp add: erase_links_def)

lemma erase_full:
  assumes inv: "map_inv hasher h m ord chs" and a: "a \<in> set ord"
  shows "\<exists>h' m' chs'. erase hasher this (h, m) (iterator (Some a) (Some this)) = Some ((h', m'), None) \<and>
           map_inv hasher h' m' (remove1 a ord) chs' \<and>
           (\<forall>b \<in> set ord. b \<noteq> a \<longrightarrow> entry_of h' b = entry_of h b) \<and>
           (\<forall>b. b \<notin> set ord \<longrightarrow> lookup h' b = lookup h b) \<and>
           length h' = length h \<and> Suc (element_count m') = element_count m \<and>
           bucket_count m' = bucket_count m \<and> lookup h' a = None"
proof -
  from inv_lookup[OF inv a] obtain nd where nd: "lookup h a = Some nd" by auto
  let ?i = "hasher (fst (data nd)) mod bucket_count m"
  let ?c = "chs ! ?i"
  have bc: "0 < bucket_count m" and lb: "length (buckets m) = bucket_count m"
    using inv by (simp_all add: map_inv_def)
  have i: "?i < bucket_count m" using bc by simp
  have oka: "list_next nd = succ_in ord a" "list_prev nd = pred_in ord a" "a \<in> set ?c"
    "next nd = succ_in ?c a" "prev nd = pred_in ?c a"
    using inv_node_ok[OF inv a] nd by (simp_all add: node_ok_def Let_def)
  have csub: "set ?c \<subseteq> set ord" using inv_chain_mem[OF inv i] by auto
  have p: "\<And>p. prev nd = Some p \<Longrightarrow> p \<in> set ord"
    using oka csub by (auto dest: pred_in_Some_mem)
  have n: "\<And>p. next nd = Some p \<Longrightarrow> p \<in> set ord"
    using oka csub by (auto dest: succ_in_Some_mem)
  have lp: "\<And>p. list_prev nd = Some p \<Longrightarrow> p \<in> set ord"
    using oka by (auto dest: pred_in_Some_mem)
  have ln: "\<And>p. list_next nd = Some p \<Longrightarrow> p \<in> set ord"
    using oka by (auto dest: succ_in_Some_mem)
  have alloc: "\<And>p. p \<in> set ord \<Longrightarrow> lookup h p \<noteq> None" using inv_lookup[OF inv] by auto
  let ?h = "erase_heap h a nd" and ?m = "erase_header hasher nd m"
  have ex: "erase hasher this (h, m) (iterator (Some a) (Some this)) = Some ((?h, ?m), None)"
    using nd bc i lb p n lp ln alloc by (intro erase_exec) auto
  have i': "map_inv hasher ?h ?m (remove1 a ord) (chs[?i := remove1 a ?c])"
    using erase_inv[OF inv a nd] .
  have ent: "\<forall>b \<in> set ord. b \<noteq> a \<longrightarrow> entry_of ?h b = entry_of h b"
    using alloc by (auto simp: erase_heap_entry)
  have frame: "\<forall>b. b \<notin> set ord \<longrightarrow> lookup ?h b = lookup h b"
  proof (intro allI impI)
    fix b assume b: "b \<notin> set ord"
    then have ba: "b \<noteq> a" using a by auto
    show "lookup ?h b = lookup h b"
    proof (cases "lookup h b")
      case None
      then show ?thesis by (simp add: erase_heap_None)
    next
      case (Some nb)
      have "erase_links nd b nb = nb" using b p n lp ln by (intro erase_links_id) auto
      then show ?thesis using Some ba by (simp add: erase_heap_lookup)
    qed
  qed
  have "0 < element_count m" using inv a by (cases ord) (auto simp: map_inv_def)
  then have ec: "Suc (element_count ?m) = element_count m" by (simp add: erase_header_def)
  show ?thesis
    using ex i' ent frame ec
    by (intro exI[of _ ?h] exI[of _ ?m] exI[of _ "chs[?i := remove1 a ?c]"])
       (simp add: erase_header_def)
qed

subsection \<open>Insertion and rehash\<close>

lemma inv_init: "map_inv hasher h init [] (replicate INITIAL_CAPACITY [])"
  by (simp add: map_inv_def init_def INITIAL_CAPACITY_def)

lemma wf_init: "well_formed hasher (h, init)"
  unfolding well_formed_def using inv_init by fastforce

lemma load_ok_init: "load_ok init"
  by (simp add: load_ok_def init_def INITIAL_CAPACITY_def)

lemma inv_entries:
  assumes "map_inv hasher h m ord chs" and "traverse this (h, m) = Some es"
  shows "es = map (entry_of h) ord"
  using inv_traverse[OF assms(1), of this] assms(2) by simp

lemma key_of_entry: "key_of h a = fst (entry_of h a)"
  by (simp add: key_of_def entry_of_def)

lemma find_addr_entry:
  assumes "distinct (map (key_of h) ord)" and "(k, v) \<in> set (map (entry_of h) ord)"
  shows "\<exists>a. find_addr h ord k = Some a \<and> a \<in> set ord \<and> entry_of h a = (k, v)"
proof -
  from assms(2) obtain a where a: "a \<in> set ord" "entry_of h a = (k, v)" by auto
  then have "key_of h a = k" by (simp add: key_of_entry)
  from find_addr_unique[OF assms(1) a(1) this] a show ?thesis by blast
qed

lemma find_addr_absent:
  "k \<notin> fst ` set (map (entry_of h) ord) \<Longrightarrow> find_addr h ord k = None"
  by (force simp: find_addr_None key_of_entry)

lemma find_addr_present:
  assumes "distinct (map (key_of h) ord)" and "k \<in> fst ` set (map (entry_of h) ord)"
  shows "\<exists>a v. find_addr h ord k = Some a \<and> a \<in> set ord \<and> entry_of h a = (k, v)"
proof -
  from assms(2) obtain v where "(k, v) \<in> set (map (entry_of h) ord)" by force
  from find_addr_entry[OF assms(1) this] show ?thesis by blast
qed

lemma inv_distinct_keys: "map_inv hasher h m ord chs \<Longrightarrow> distinct (map (key_of h) ord)"
  by (simp add: map_inv_def)

lemma deref_entry:
  "lookup h a \<noteq> None \<Longrightarrow> iterator_deref h (iterator (Some a) c) = Some (entry_of h a)"
  by (auto simp: iterator_deref_def entry_of_def)

lemma wf_insert:
  assumes "well_formed hasher s" and "insert_entry hasher this s val = Some (s', r)"
  shows "well_formed hasher s'"
proof -
  obtain h m where s: "s = (h, m)" by (cases s)
  with assms(1) obtain ord chs where inv: "map_inv hasher h m ord chs"
    by (auto simp: well_formed_def)
  show ?thesis
  proof (cases "find_addr h ord (fst val)")
    case None
    from insert_new_inv[OF inv None, of this] assms(2) s show ?thesis
      by (auto simp: well_formed_def)
  next
    case (Some a)
    from insert_dup_inv[OF inv Some, of this] assms(2) s show ?thesis
      by (auto simp: well_formed_def)
  qed
qed

lemma load_ok_step:
  assumes "load_ok m" and "0 < bucket_count m"
  shows "4 * Suc (element_count m) \<le> 3 * (if 3 * bucket_count m \<le> 4 * element_count m
                              then bucket_count m * 2 else bucket_count m)"
proof -
  from assms obtain q where q: "bucket_count m = 4 * q" "0 < q" by (auto simp: load_ok_def elim: dvdE)
  with assms show ?thesis by (auto simp: load_ok_def)
qed

lemma load_ok_insert:
  assumes wf: "well_formed hasher (h, m)" and lo: "load_ok m"
    and ins: "insert_entry hasher this (h, m) val = Some ((h', m'), r)"
  shows "load_ok m'"
proof -
  from wf obtain ord chs where inv: "map_inv hasher h m ord chs" by (auto simp: well_formed_def)
  have st: "4 * Suc (element_count m) \<le> 3 * (if 3 * bucket_count m \<le> 4 * element_count m
                              then bucket_count m * 2 else bucket_count m)"
    using load_ok_step[OF lo inv_pos[OF inv]] .
  have dv: "4 dvd (if 3 * bucket_count m \<le> 4 * element_count m
                              then bucket_count m * 2 else bucket_count m)"
    using lo by (simp add: load_ok_def)
  show ?thesis
  proof (cases "find_addr h ord (fst val)")
    case None
    from insert_new_inv[OF inv None, of this] ins st dv show ?thesis
      by (auto simp: load_ok_def)
  next
    case (Some a)
    from insert_dup_inv[OF inv Some, of this] ins st dv show ?thesis
      by (auto simp: load_ok_def)
  qed
qed

subsection \<open>Erase and element access\<close>

lemma inv_live_node:
  assumes inv: "map_inv hasher h m ord chs"
  shows "live_node hasher (h, m) p \<longleftrightarrow> (\<exists>a \<in> set ord. p = Some a)"
proof (cases p)
  case None
  then show ?thesis by (simp add: live_node_def)
next
  case (Some a)
  show ?thesis
  proof (cases "lookup h a")
    case None
    then have "a \<notin> set ord" using inv_lookup[OF inv, of a] by auto
    with None Some show ?thesis by (simp add: live_node_def)
  next
    case nd: (Some nd)
    have fk: "find_key hasher 0 (h, m) (fst (data nd)) = Some (iterator (find_addr h ord (fst (data nd))) (Some 0))"
      using inv_find_key[OF inv] .
    show ?thesis
    proof (cases "a \<in> set ord")
      case True
      have "key_of h a = fst (data nd)" using nd by (simp add: key_of_def)
      from find_addr_unique[OF inv_distinct_keys[OF inv] True this]
      show ?thesis using Some nd fk True by (simp add: live_node_def)
    next
      case False
      have "find_addr h ord (fst (data nd)) \<noteq> Some a"
        using False by (auto dest: find_addr_Some)
      then show ?thesis using Some nd fk False by (simp add: live_node_def)
    qed
  qed
qed

lemma map_remove1_inj:
  "inj_on g (set xs) \<Longrightarrow> a \<in> set xs \<Longrightarrow> map g (remove1 a xs) = remove1 (g a) (map g xs)"
proof (induction xs)
  case Nil
  then show ?case by simp
next
  case (Cons x xs)
  show ?case
  proof (cases "x = a")
    case True
    then show ?thesis by simp
  next
    case False
    with Cons.prems have "g x \<noteq> g a" "a \<in> set xs" "inj_on g (set xs)"
      by (auto simp: inj_on_def)
    with Cons.IH False show ?thesis by simp
  qed
qed

lemma inv_entry_inj:
  assumes inv: "map_inv hasher h m ord chs"
  shows "inj_on (entry_of h) (set ord)"
proof (rule inj_onI)
  fix a b assume "a \<in> set ord" "b \<in> set ord" "entry_of h a = entry_of h b"
  then have "key_of h a = key_of h b" by (simp add: key_of_entry)
  with \<open>a \<in> set ord\<close> \<open>b \<in> set ord\<close> inv_distinct_keys[OF inv] show "a = b"
    by (auto simp: distinct_map inj_on_def)
qed

text \<open>
  \<^verbatim>\<open>erase\<close> with an iterator that is past-the-end or carries the address of
  another container throws \<^verbatim>\<open>invalid_iterator\<close> and leaves the state as it was.
  With an iterator that carries the address of this container and references
  one of its entries it throws nothing: the entry leaves the iteration order,
  the size drops by one, and \<^verbatim>\<open>find\<close> on its key returns \<^verbatim>\<open>end()\<close>.
\<close>

lemma erase_entry_of_this_container:
  assumes "well_formed hasher (h, m)" and "traverse this (h, m) = Some es"
    and "container pos = Some this \<Longrightarrow> current pos \<noteq> None \<Longrightarrow> live_node hasher (h, m) (current pos)"
  shows "(current pos = None \<or> container pos \<noteq> Some this \<longrightarrow>
            erase hasher this (h, m) pos = Some ((h, m), Some invalid_iterator)) \<and>
         (current pos \<noteq> None \<and> container pos = Some this \<longrightarrow>
            (\<exists>h' m' k v. iterator_deref h pos = Some (k, v) \<and> (k, v) \<in> set es \<and>
               erase hasher this (h, m) pos = Some ((h', m'), None) \<and>
               size_of m' + 1 = size_of m \<and>
               find_key hasher this (h', m') k = Some (end_it this) \<and>
               traverse this (h', m') = Some (remove1 (k, v) es) \<and>
               k \<notin> fst ` set (remove1 (k, v) es) \<and>
               well_formed hasher (h', m')))"
proof (intro conjI impI)
  assume "current pos = None \<or> container pos \<noteq> Some this"
  then show "erase hasher this (h, m) pos = Some ((h, m), Some invalid_iterator)"
    by (auto simp: erase_def iterator_eq_def end_it_def)
next
  assume v: "current pos \<noteq> None \<and> container pos = Some this"
  from assms(1) obtain ord chs where inv: "map_inv hasher h m ord chs"
    by (auto simp: well_formed_def)
  have es: "es = map (entry_of h) ord" using inv_entries[OF inv assms(2)] .
  from v assms(3) have "live_node hasher (h, m) (current pos)" by simp
  then obtain a where a: "a \<in> set ord" "current pos = Some a"
    using inv_live_node[OF inv] by auto
  with v have pos: "pos = iterator (Some a) (Some this)" by (cases pos) simp
  obtain k v where kv: "entry_of h a = (k, v)" by (cases "entry_of h a")
  have "lookup h a \<noteq> None" using inv_lookup[OF inv a(1)] by auto
  then have de: "iterator_deref h pos = Some (k, v)" using pos kv by (simp add: deref_entry)
  have mem: "(k, v) \<in> set es" using es a(1) kv by force
  from erase_full[OF inv a(1), of this] obtain h' m' chs' where
    er: "erase hasher this (h, m) (iterator (Some a) (Some this)) = Some ((h', m'), None)"
    and inv': "map_inv hasher h' m' (remove1 a ord) chs'"
    and ent: "\<forall>b \<in> set ord. b \<noteq> a \<longrightarrow> entry_of h' b = entry_of h b"
    and ec: "Suc (element_count m') = element_count m" by blast
  have d: "distinct ord" using inv by (simp add: map_inv_def)
  have "map (entry_of h') (remove1 a ord) = map (entry_of h) (remove1 a ord)"
    using ent d by auto
  also have "\<dots> = remove1 (k, v) es"
    using map_remove1_inj[OF inv_entry_inj[OF inv] a(1)] kv es by simp
  finally have tr: "traverse this (h', m') = Some (remove1 (k, v) es)"
    using inv_traverse[OF inv', of this] by simp
  have nk: "k \<notin> fst ` set (remove1 (k, v) es)"
  proof
    assume "k \<in> fst ` set (remove1 (k, v) es)"
    moreover have "remove1 (k, v) es = map (entry_of h) (remove1 a ord)"
      using map_remove1_inj[OF inv_entry_inj[OF inv] a(1)] kv es by simp
    ultimately have "k \<in> fst ` entry_of h ` set (remove1 a ord)" by simp
    then obtain b where b: "b \<in> set (remove1 a ord)" "fst (entry_of h b) = k"
      by auto
    then have "b \<in> set ord" "b \<noteq> a" using d by auto
    moreover have "key_of h b = key_of h a" using b kv by (simp add: key_of_entry)
    ultimately show False using a(1) inv_distinct_keys[OF inv]
      by (auto simp: distinct_map inj_on_def)
  qed
  have "find_addr h' (remove1 a ord) k = None"
    using nk tr inv_traverse[OF inv', of this] find_addr_absent[of k h' "remove1 a ord"] by simp
  then have fk: "find_key hasher this (h', m') k = Some (end_it this)"
    using inv_find_key[OF inv', of this k] by (simp add: end_it_def)
  have "well_formed hasher (h', m')" using inv' by (auto simp: well_formed_def)
  with de mem er ec fk tr nk pos
  show "\<exists>h' m' k v. iterator_deref h pos = Some (k, v) \<and> (k, v) \<in> set es \<and>
               erase hasher this (h, m) pos = Some ((h', m'), None) \<and>
               size_of m' + 1 = size_of m \<and>
               find_key hasher this (h', m') k = Some (end_it this) \<and>
               traverse this (h', m') = Some (remove1 (k, v) es) \<and>
               k \<notin> fst ` set (remove1 (k, v) es) \<and>
               well_formed hasher (h', m')"
    by (intro exI[of _ h'] exI[of _ m'] exI[of _ k] exI[of _ v]) (simp add: size_of_def)
qed

lemma value_at_entry: "lookup h a \<noteq> None \<Longrightarrow> value_at h a = Some (snd (entry_of h a))"
  by (auto simp: value_at_def entry_of_def)

subsection \<open>Iterators and iteration order\<close>

lemma inv_list_links:
  assumes inv: "map_inv hasher h m ord chs" and a: "a \<in> set ord"
  shows "\<exists>nd. lookup h a = Some nd \<and> list_next nd = succ_in ord a \<and> list_prev nd = pred_in ord a"
  using inv_node_ok[OF inv a] by (auto simp: node_ok_def Let_def split: option.splits)

lemma inv_head_prev:
  assumes inv: "map_inv hasher h m ord chs" and hd: "head m = Some a"
  shows "\<exists>nd. lookup h a = Some nd \<and> list_prev nd = None"
proof -
  have hp: "hdp ord = Some a" using inv hd by (simp add: map_inv_def)
  then have a: "a \<in> set ord" by (rule hdp_in_set)
  have "distinct ord" using inv by (simp add: map_inv_def)
  then have "pred_in ord a = None" using hp a pred_in_eq_None[of a ord] by simp
  with inv_list_links[OF inv a] show ?thesis by auto
qed

lemma wf_insert_new:
  assumes "well_formed hasher s" and "traverse this s = Some es" and "k \<notin> fst ` set es"
  shows "\<exists>s' it. insert_entry hasher this s (k, v) = Some (s', it, True) \<and>
           traverse this s' = Some (es @ [(k, v)]) \<and> well_formed hasher s'"
proof -
  obtain h m where s: "s = (h, m)" by (cases s)
  with assms(1) obtain ord chs where inv: "map_inv hasher h m ord chs"
    by (auto simp: well_formed_def)
  have es: "es = map (entry_of h) ord" using inv_entries[OF inv] assms(2) s by simp
  have n: "find_addr h ord (fst (k, v)) = None"
    using assms(3) es find_addr_absent[of k h ord] by simp
  from insert_new_inv[OF inv n, of this] obtain h' m' chs' where
    ins: "insert_entry hasher this (h, m) (k, v)
           = Some ((h', m'), iterator (Some (length h)) (Some this), True)"
    and inv': "map_inv hasher h' m' (ord @ [length h]) chs'"
    and ent: "\<forall>a \<in> set ord. entry_of h' a = entry_of h a"
    and enew: "entry_of h' (length h) = (k, v)" by blast
  have "map (entry_of h') ord = map (entry_of h) ord" using ent by auto
  then have tr: "traverse this (h', m') = Some (es @ [(k, v)])"
    using inv_traverse[OF inv', of this] enew es by simp
  have "well_formed hasher (h', m')" using inv' by (auto simp: well_formed_def)
  with ins tr s show ?thesis by blast
qed

lemma wf_erase_found:
  assumes "well_formed hasher s" and "traverse this s = Some es" and "(k, v) \<in> set es"
  shows "\<exists>s' it. find_key hasher this s k = Some it \<and> erase hasher this s it = Some (s', None) \<and>
           traverse this s' = Some (remove1 (k, v) es) \<and> well_formed hasher s'"
proof -
  obtain h m where s: "s = (h, m)" by (cases s)
  with assms(1) obtain ord chs where inv: "map_inv hasher h m ord chs"
    by (auto simp: well_formed_def)
  have es: "es = map (entry_of h) ord" using inv_entries[OF inv] assms(2) s by simp
  from find_addr_entry[OF inv_distinct_keys[OF inv]] assms(3) es obtain a where
    a: "find_addr h ord k = Some a" "a \<in> set ord" "entry_of h a = (k, v)" by blast
  have fk: "find_key hasher this (h, m) k = Some (iterator (Some a) (Some this))"
    using inv_find_key[OF inv, of this k] a(1) by simp
  from erase_full[OF inv a(2), of this] obtain h' m' chs' where
    er: "erase hasher this (h, m) (iterator (Some a) (Some this)) = Some ((h', m'), None)"
    and inv': "map_inv hasher h' m' (remove1 a ord) chs'"
    and ent: "\<forall>b \<in> set ord. b \<noteq> a \<longrightarrow> entry_of h' b = entry_of h b" by blast
  have d: "distinct ord" using inv by (simp add: map_inv_def)
  have "map (entry_of h') (remove1 a ord) = map (entry_of h) (remove1 a ord)"
    using ent d by auto
  also have "\<dots> = remove1 (k, v) es"
    using map_remove1_inj[OF inv_entry_inj[OF inv] a(2)] a(3) es by simp
  finally have tr: "traverse this (h', m') = Some (remove1 (k, v) es)"
    using inv_traverse[OF inv', of this] by simp
  have "well_formed hasher (h', m')" using inv' by (auto simp: well_formed_def)
  with fk er tr s show ?thesis by blast
qed

subsection \<open>Clearing\<close>

lemma inv_frame:
  assumes inv: "map_inv hasher h m ord chs" and same: "\<And>a. a \<in> set ord \<Longrightarrow> lookup h' a = lookup h a"
  shows "map_inv hasher h' m ord chs"
proof -
  have keys: "\<And>a. a \<in> set ord \<Longrightarrow> key_of h' a = key_of h a"
    using same by (simp add: key_of_def)
  have mk: "map (key_of h') ord = map (key_of h) ord" using keys by auto
  have node: "\<And>a. a \<in> set ord \<Longrightarrow> node_ok hasher h' m ord chs a"
    using inv_node_ok[OF inv] same by (simp add: node_ok_def)
  have bk: "\<And>i. i < bucket_count m \<Longrightarrow> buckets m ! i = hdp (chs ! i) \<and> distinct (chs ! i) \<and>
         (\<forall>a \<in> set (chs ! i). a \<in> set ord \<and> hasher (key_of h' a) mod bucket_count m = i)"
    using inv keys by (auto simp: map_inv_def)
  have dk: "distinct (map (key_of h') ord)" unfolding mk using inv by (simp add: map_inv_def)
  have old: "0 < bucket_count m" "length (buckets m) = bucket_count m" "length chs = bucket_count m"
    "distinct ord" "length ord = element_count m" "head m = hdp ord" "tail m = lastp ord"
    using inv by (simp_all add: map_inv_def)
  show ?thesis unfolding map_inv_def using old dk node bk by simp
qed

lemma frame_entries:
  "(\<And>a. a \<in> set ord \<Longrightarrow> lookup h' a = lookup h a) \<Longrightarrow> map (entry_of h') ord = map (entry_of h) ord"
  by (simp add: entry_of_def)

lemma clear_nodes_linked:
  "linked h list_next cs \<Longrightarrow>
   \<exists>h'. clear_nodes h (hdp cs) = Some h' \<and> length h' = length h \<and>
        (\<forall>b. lookup h' b = (if b \<in> set cs then None else lookup h b))"
proof (induction cs arbitrary: h)
  case Nil
  then show ?case by (subst clear_nodes.simps) simp
next
  case (Cons a cs)
  from Cons.prems obtain nd where nd: "lookup h a = Some nd" "list_next nd = hdp cs"
    and acs: "a \<notin> set cs" and l: "linked h list_next cs"
    by (auto simp: linked_Cons)
  have "\<forall>b \<in> set cs. map_option list_next (lookup (h[a := None]) b) = map_option list_next (lookup h b)"
    using acs by auto
  with l have "linked (h[a := None]) list_next cs" by (rule linked_cong)
  from Cons.IH[OF this] obtain h' where
    h': "clear_nodes (h[a := None]) (hdp cs) = Some h'" "length h' = length h"
    "\<forall>b. lookup h' b = (if b \<in> set cs then None else lookup (h[a := None]) b)" by auto
  have "clear_nodes h (hdp (a # cs)) = Some h'"
    using nd h'(1) by (subst clear_nodes.simps) (simp add: free_eq)
  moreover have "\<forall>b. lookup h' b = (if b \<in> set (a # cs) then None else lookup h b)"
    using h'(3) by auto
  ultimately show ?case using h'(2) by blast
qed

lemma clear_buckets_eq:
  "i \<le> n \<Longrightarrow> n \<le> length bs \<Longrightarrow>
   clear_buckets n i bs = Some (take i bs @ replicate (n - i) None @ drop n bs)"
proof (induction "n - i" arbitrary: i bs)
  case 0
  then show ?case by (subst clear_buckets.simps) simp
next
  case (Suc k)
  then have i: "i < n" "i < length bs" by simp_all
  have k: "k = n - (i + 1)" using Suc.hyps(2) by simp
  have "clear_buckets n (i + 1) (bs[i := None])
          = Some (take (i + 1) (bs[i := None]) @ replicate (n - (i + 1)) None @ drop n (bs[i := None]))"
    using Suc.hyps(1)[OF k] i Suc.prems by simp
  moreover have "take (i + 1) (bs[i := None]) = take i bs @ [None]"
    using i by (simp add: take_Suc_conv_app_nth)
  moreover have "drop n (bs[i := None]) = drop n bs" using i by simp
  moreover have "replicate (n - i) None = (None :: ptr) # replicate (n - (i + 1)) None"
    using i by (cases "n - i") simp_all
  ultimately show ?case using i by (subst clear_buckets.simps) simp
qed

lemma clear_inv:
  assumes inv: "map_inv hasher h m ord chs"
  shows "\<exists>h'. clear (h, m) = Some (h', m\<lparr>head := None, tail := None, element_count := 0,
                                         buckets := replicate (bucket_count m) None\<rparr>) \<and>
           length h' = length h \<and>
           (\<forall>b. lookup h' b = (if b \<in> set ord then None else lookup h b)) \<and>
           map_inv hasher h' (m\<lparr>head := None, tail := None, element_count := 0,
                                buckets := replicate (bucket_count m) None\<rparr>) []
             (replicate (bucket_count m) [])"
proof -
  have hd: "head m = hdp ord" and lb: "length (buckets m) = bucket_count m"
    and bc: "0 < bucket_count m"
    using inv by (simp_all add: map_inv_def)
  from clear_nodes_linked[OF inv_ord_linked[OF inv]] obtain h' where
    h': "clear_nodes h (hdp ord) = Some h'" "length h' = length h"
    "\<forall>b. lookup h' b = (if b \<in> set ord then None else lookup h b)" by auto
  have cb: "clear_buckets (bucket_count m) 0 (buckets m) = Some (replicate (bucket_count m) None)"
    using clear_buckets_eq[of 0 "bucket_count m" "buckets m"] lb by simp
  have "clear (h, m) = Some (h', m\<lparr>head := None, tail := None, element_count := 0,
                                         buckets := replicate (bucket_count m) None\<rparr>)"
    using h'(1) cb hd by (simp add: clear_def)
  moreover have "map_inv hasher h' (m\<lparr>head := None, tail := None, element_count := 0,
                                buckets := replicate (bucket_count m) None\<rparr>) []
             (replicate (bucket_count m) [])"
    using bc by (simp add: map_inv_def)
  ultimately show ?thesis using h'(2,3) by blast
qed

subsection \<open>Copying\<close>

lemma succ_in_split: "distinct (xs @ a # ys) \<Longrightarrow> succ_in (xs @ a # ys) a = hdp ys"
  by (induction xs) auto

lemma copy_loop_inv:
  "ordX = xs @ rest \<Longrightarrow> map_inv hasher hc X ordX chsX \<Longrightarrow> map_inv hasher hc Y ordY chsY \<Longrightarrow>
   set ordX \<inter> set ordY = {} \<Longrightarrow> map (entry_of hc) ordY = map (entry_of hc) xs \<Longrightarrow>
   \<exists>h' Y' ordY' chsY'.
      copy_loop hasher this other_this (hc, Y) (const_iterator (hdp rest) c) = Some (h', Y') \<and>
      map_inv hasher h' X ordX chsX \<and> map_inv hasher h' Y' ordY' chsY' \<and>
      set ordX \<inter> set ordY' = {} \<and> map (entry_of h') ordY' = map (entry_of h') ordX \<and>
      (\<forall>a. a < length hc \<longrightarrow> a \<notin> set ordY \<longrightarrow> lookup h' a = lookup hc a) \<and>
      (\<forall>a \<in> set ordY'. a \<in> set ordY \<or> length hc \<le> a) \<and>
      length hc \<le> length h' \<and> (load_ok Y \<longrightarrow> load_ok Y')"
proof (induction rest arbitrary: xs hc Y ordY chsY)
  case Nil
  have "copy_loop hasher this other_this (hc, Y) (const_iterator (hdp []) c) = Some (hc, Y)"
    by (subst copy_loop.simps) (simp add: const_iterator_eq_def cend_def)
  with Nil show ?case by fastforce
next
  case (Cons a rest)
  note invX = Cons.prems(2) and invY = Cons.prems(3) and disj = Cons.prems(4)
  have ordX: "ordX = xs @ a # rest" using Cons.prems(1) .
  have d: "distinct ordX" using invX by (simp add: map_inv_def)
  have a: "a \<in> set ordX" using ordX by simp
  from inv_lookup[OF invX a] obtain nd where nd: "lookup hc a = Some nd" by auto
  let ?val = "entry_of hc a"
  have de: "const_iterator_deref hc (const_iterator (Some a) c) = Some ?val"
    using nd by (simp add: const_iterator_deref_def entry_of_def)
  have "key_of hc ` set ordY = set (map fst (map (entry_of hc) ordY))"
    by (auto simp: key_of_entry)
  also have "\<dots> = key_of hc ` set xs" using Cons.prems(5) by (auto simp: key_of_entry)
  finally have ky: "key_of hc ` set ordY = key_of hc ` set xs" .
  have "key_of hc a \<notin> key_of hc ` set xs"
    using inv_distinct_keys[OF invX] ordX by auto
  then have n: "find_addr hc ordY (fst ?val) = None"
    using ky by (simp add: find_addr_None key_of_entry)
  from insert_new_inv[OF invY n, of this] obtain h1 Y1 chs1 where
    ins: "insert_entry hasher this (hc, Y) ?val
           = Some ((h1, Y1), iterator (Some (length hc)) (Some this), True)"
    and invY1: "map_inv hasher h1 Y1 (ordY @ [length hc]) chs1"
    and ent: "\<forall>b \<in> set ordY. entry_of h1 b = entry_of hc b"
    and enew: "entry_of h1 (length hc) = ?val"
    and fr: "\<forall>b. b \<notin> set ordY \<longrightarrow> b \<noteq> length hc \<longrightarrow> lookup h1 b = lookup hc b"
    and len: "length h1 = Suc (length hc)" by blast
  have lessX: "\<And>b. b \<in> set ordX \<Longrightarrow> b < length hc" using inv_ord_less[OF invX] .
  have sameX: "\<And>b. b \<in> set ordX \<Longrightarrow> lookup h1 b = lookup hc b"
    using fr disj lessX by fastforce
  have invX1: "map_inv hasher h1 X ordX chsX" using inv_frame[OF invX sameX] .
  have disj1: "set ordX \<inter> set (ordY @ [length hc]) = {}" using disj lessX by fastforce
  have "map (entry_of h1) ordY = map (entry_of hc) ordY" using ent by auto
  moreover have "map (entry_of h1) (xs @ [a]) = map (entry_of hc) (xs @ [a])"
  proof (rule frame_entries)
    fix b assume "b \<in> set (xs @ [a])"
    then have "b \<in> set ordX" using ordX by auto
    then show "lookup h1 b = lookup hc b" by (rule sameX)
  qed
  ultimately have ents: "map (entry_of h1) (ordY @ [length hc]) = map (entry_of h1) (xs @ [a])"
    using enew Cons.prems(5) by simp
  have ordX': "ordX = (xs @ [a]) @ rest" using ordX by simp
  from Cons.IH[OF ordX' invX1 invY1 disj1 ents] obtain h' Y' ordY' chsY' where
    r: "copy_loop hasher this other_this (h1, Y1) (const_iterator (hdp rest) c) = Some (h', Y')"
    and res: "map_inv hasher h' X ordX chsX" "map_inv hasher h' Y' ordY' chsY'"
      "set ordX \<inter> set ordY' = {}" "map (entry_of h') ordY' = map (entry_of h') ordX"
    and fr': "\<forall>b. b < length h1 \<longrightarrow> b \<notin> set (ordY @ [length hc]) \<longrightarrow> lookup h' b = lookup h1 b"
    and fresh': "\<forall>b \<in> set ordY'. b \<in> set (ordY @ [length hc]) \<or> length h1 \<le> b"
    and len': "length h1 \<le> length h'" and lo': "load_ok Y1 \<longrightarrow> load_ok Y'" by blast
  have "well_formed hasher (hc, Y)" using invY by (auto simp: well_formed_def)
  then have lo: "load_ok Y \<longrightarrow> load_ok Y'" using load_ok_insert[OF _ _ ins] lo' by blast
  from inv_list_links[OF invX1 a] obtain nd1 where
    nd1: "lookup h1 a = Some nd1" "list_next nd1 = succ_in ordX a" by auto
  have "succ_in ordX a = hdp rest" using d ordX by (simp add: succ_in_split)
  then have inc: "const_iterator_inc h1 (const_iterator (Some a) c) = Some (const_iterator (hdp rest) c)"
    using nd1 by (simp add: const_iterator_inc_def)
  have ex: "copy_loop hasher this other_this (hc, Y) (const_iterator (hdp (a # rest)) c) = Some (h', Y')"
    using de ins inc r by (subst copy_loop.simps) (simp add: const_iterator_eq_def cend_def)
  have frame: "\<forall>b. b < length hc \<longrightarrow> b \<notin> set ordY \<longrightarrow> lookup h' b = lookup hc b"
  proof (intro allI impI)
    fix b assume b: "b < length hc" "b \<notin> set ordY"
    then have "lookup h' b = lookup h1 b" using fr' len by simp
    also have "\<dots> = lookup hc b" using fr b by simp
    finally show "lookup h' b = lookup hc b" .
  qed
  have fresh: "\<forall>b \<in> set ordY'. b \<in> set ordY \<or> length hc \<le> b"
    using fresh' len by fastforce
  have "length hc \<le> length h'" using len len' by simp
  with ex res frame fresh lo show ?case by blast
qed

lemma copy_construct_inv:
  assumes invX: "map_inv hasher h X ordX chsX"
  shows "\<exists>h' Y ordY chsY.
      copy_construct hasher this other_this h X = Some (h', Y) \<and>
      map_inv hasher h' X ordX chsX \<and> map_inv hasher h' Y ordY chsY \<and>
      set ordX \<inter> set ordY = {} \<and> map (entry_of h') ordY = map (entry_of h') ordX \<and>
      (\<forall>a. a < length h \<longrightarrow> lookup h' a = lookup h a) \<and>
      (\<forall>a \<in> set ordY. length h \<le> a) \<and> length h \<le> length h' \<and>
      (load_ok X \<longrightarrow> load_ok Y)"
proof -
  let ?Y0 = "\<lparr>buckets = replicate (bucket_count X) None, bucket_count = bucket_count X,
            element_count = 0, head = None, tail = None\<rparr>"
  have bc: "0 < bucket_count X" using inv_pos[OF invX] .
  have invY0: "map_inv hasher h ?Y0 [] (replicate (bucket_count X) [])"
    using bc by (simp add: map_inv_def)
  have hd: "head X = hdp ordX" using invX by (simp add: map_inv_def)
  from copy_loop_inv[of ordX "[]" ordX hasher h X chsX ?Y0 "[]" "replicate (bucket_count X) []"
      this other_this "Some other_this"] invX invY0
  obtain h' Y ordY chsY where
    "copy_loop hasher this other_this (h, ?Y0) (const_iterator (hdp ordX) (Some other_this)) = Some (h', Y)"
    "map_inv hasher h' X ordX chsX" "map_inv hasher h' Y ordY chsY"
    "set ordX \<inter> set ordY = {}" "map (entry_of h') ordY = map (entry_of h') ordX"
    "\<forall>a. a < length h \<longrightarrow> a \<notin> set [] \<longrightarrow> lookup h' a = lookup h a"
    "\<forall>a \<in> set ordY. a \<in> set [] \<or> length h \<le> a" "length h \<le> length h'"
    "load_ok ?Y0 \<longrightarrow> load_ok Y"
    by auto
  moreover have "load_ok X \<longrightarrow> load_ok ?Y0" by (simp add: load_ok_def)
  ultimately show ?thesis using hd
    by (intro exI[of _ h'] exI[of _ Y] exI[of _ ordY] exI[of _ chsY])
       (simp add: copy_construct_def cbegin_def)
qed

subsection \<open>Containers that share no node\<close>

lemma separate_sym: "separate hasher h X Y \<Longrightarrow> separate hasher h Y X"
  unfolding separate_def by (metis inf_commute)

lemma separate_insert:
  assumes sep: "separate hasher h X Y"
    and ins: "insert_entry hasher this (h, Y) val = Some ((h', Y'), r)"
  shows "separate hasher h' X Y' \<and> traverse thisX (h', X) = traverse thisX (h, X)"
proof -
  from sep obtain ordX chsX ordY chsY where
    invX: "map_inv hasher h X ordX chsX" and invY: "map_inv hasher h Y ordY chsY"
    and disj: "set ordX \<inter> set ordY = {}" by (auto simp: separate_def)
  have lessX: "\<And>b. b \<in> set ordX \<Longrightarrow> b < length h" using inv_ord_less[OF invX] .
  have "\<exists>ordY' chsY'. map_inv hasher h' Y' ordY' chsY' \<and> set ordX \<inter> set ordY' = {} \<and>
          (\<forall>b \<in> set ordX. lookup h' b = lookup h b)"
  proof (cases "find_addr h ordY (fst val)")
    case None
    from insert_new_inv[OF invY None, of this] ins obtain chs' where
      i: "map_inv hasher h' Y' (ordY @ [length h]) chs'"
      and fr: "\<forall>a. a \<notin> set ordY \<longrightarrow> a \<noteq> length h \<longrightarrow> lookup h' a = lookup h a" by auto
    have "set ordX \<inter> set (ordY @ [length h]) = {}" using disj lessX by fastforce
    moreover have "\<forall>b \<in> set ordX. lookup h' b = lookup h b" using fr disj lessX by fastforce
    ultimately show ?thesis using i by blast
  next
    case (Some a)
    from insert_dup_inv[OF invY Some, of this] ins obtain chs' where
      i: "map_inv hasher h' Y' ordY chs'"
      and fr: "\<forall>a. a \<notin> set ordY \<longrightarrow> lookup h' a = lookup h a" by auto
    have "\<forall>b \<in> set ordX. lookup h' b = lookup h b" using fr disj by fastforce
    with i disj show ?thesis by blast
  qed
  then obtain ordY' chsY' where invY': "map_inv hasher h' Y' ordY' chsY'"
    and disj': "set ordX \<inter> set ordY' = {}"
    and same: "\<And>b. b \<in> set ordX \<Longrightarrow> lookup h' b = lookup h b" by blast
  have invX': "map_inv hasher h' X ordX chsX" using inv_frame[OF invX same] .
  have "traverse thisX (h', X) = traverse thisX (h, X)"
    using inv_traverse[OF invX, of thisX] inv_traverse[OF invX', of thisX]
      frame_entries[of ordX h' h] same by simp
  moreover have "separate hasher h' X Y'"
    unfolding separate_def using invX' invY' disj' by blast
  ultimately show ?thesis by simp
qed

lemma separate_erase:
  assumes sep: "separate hasher h X Y"
    and valid: "container pos = Some this \<Longrightarrow> current pos \<noteq> None \<Longrightarrow>
                live_node hasher (h, Y) (current pos)"
    and er: "erase hasher this (h, Y) pos = Some ((h', Y'), e)"
  shows "separate hasher h' X Y' \<and> traverse thisX (h', X) = traverse thisX (h, X)"
proof (cases "current pos = None \<or> container pos \<noteq> Some this")
  case True
  then have "erase hasher this (h, Y) pos = Some ((h, Y), Some invalid_iterator)"
    by (auto simp: erase_def iterator_eq_def end_it_def)
  with er sep show ?thesis by simp
next
  case False
  from sep obtain ordX chsX ordY chsY where
    invX: "map_inv hasher h X ordX chsX" and invY: "map_inv hasher h Y ordY chsY"
    and disj: "set ordX \<inter> set ordY = {}" by (auto simp: separate_def)
  from False valid have "live_node hasher (h, Y) (current pos)" by simp
  then obtain a where a: "a \<in> set ordY" "current pos = Some a"
    using inv_live_node[OF invY] by auto
  with False have pos: "pos = iterator (Some a) (Some this)" by (cases pos) simp
  from erase_full[OF invY a(1), of this] er pos obtain chs' where
    invY': "map_inv hasher h' Y' (remove1 a ordY) chs'"
    and fr: "\<forall>b. b \<notin> set ordY \<longrightarrow> lookup h' b = lookup h b" by auto
  have same: "\<And>b. b \<in> set ordX \<Longrightarrow> lookup h' b = lookup h b" using fr disj by fastforce
  have invX': "map_inv hasher h' X ordX chsX" using inv_frame[OF invX same] .
  have "set ordX \<inter> set (remove1 a ordY) = {}" using disj set_remove1_subset[of a ordY] by fastforce
  then have "separate hasher h' X Y'" unfolding separate_def using invX' invY' by blast
  moreover have "traverse thisX (h', X) = traverse thisX (h, X)"
    using inv_traverse[OF invX, of thisX] inv_traverse[OF invX', of thisX]
      frame_entries[of ordX h' h] same by simp
  ultimately show ?thesis by simp
qed

lemma swap_maps_eq: "swap_maps m other = (other, m)"
  by (simp add: swap_maps_def)

lemma copy_construct_separate:
  assumes invX: "map_inv hasher h X ordX chsX"
  shows "\<exists>h' Y. copy_construct hasher this other_this h X = Some (h', Y) \<and>
          traverse this (h', Y) = traverse other_this (h, X) \<and>
          traverse other_this (h', X) = traverse other_this (h, X) \<and>
          size_of Y = size_of X \<and>
          (\<forall>a. a < length h \<longrightarrow> lookup h' a = lookup h a) \<and>
          separate hasher h' X Y \<and> (load_ok X \<longrightarrow> load_ok Y)"
proof -
  from copy_construct_inv[OF invX, of this other_this] obtain h' Y ordY chsY where
    c: "copy_construct hasher this other_this h X = Some (h', Y)"
    and invX': "map_inv hasher h' X ordX chsX" and invY: "map_inv hasher h' Y ordY chsY"
    and disj: "set ordX \<inter> set ordY = {}"
    and ent: "map (entry_of h') ordY = map (entry_of h') ordX"
    and fr: "\<forall>a. a < length h \<longrightarrow> lookup h' a = lookup h a"
    and lo: "load_ok X \<longrightarrow> load_ok Y" by blast
  have same: "\<And>b. b \<in> set ordX \<Longrightarrow> lookup h' b = lookup h b"
    using fr inv_ord_less[OF invX] by simp
  have t1: "traverse other_this (h', X) = traverse other_this (h, X)"
    using inv_traverse[OF invX, of other_this] inv_traverse[OF invX', of other_this]
      frame_entries[of ordX h' h] same by simp
  have t2: "traverse this (h', Y) = traverse other_this (h, X)"
    using inv_traverse[OF invY, of this] inv_traverse[OF invX', of other_this] ent t1 by simp
  have "length ordY = length ordX" using ent by (metis length_map)
  then have sz: "size_of Y = size_of X" using invX' invY by (simp add: size_of_def map_inv_def)
  have "separate hasher h' X Y" unfolding separate_def using invX' invY disj by blast
  with c t1 t2 sz fr lo show ?thesis by blast
qed

lemma assign_separate:
  assumes sep: "separate hasher h m other" and ne: "this \<noteq> other_this"
  shows "\<exists>h' m'. assign hasher this other_this tmp (h, m) other = Some (h', m') \<and>
          traverse this (h', m') = traverse other_this (h, other) \<and>
          traverse other_this (h', other) = traverse other_this (h, other) \<and>
          size_of m' = size_of other \<and> separate hasher h' other m' \<and>
          (load_ok other \<longrightarrow> load_ok m')"
proof -
  from sep obtain ordM chsM ordO chsO where
    invM: "map_inv hasher h m ordM chsM" and invO: "map_inv hasher h other ordO chsO"
    and disj: "set ordM \<inter> set ordO = {}" by (auto simp: separate_def)
  from copy_construct_inv[OF invO, of tmp other_this] obtain h1 T ordT chsT where
    c: "copy_construct hasher tmp other_this h other = Some (h1, T)"
    and invO1: "map_inv hasher h1 other ordO chsO" and invT: "map_inv hasher h1 T ordT chsT"
    and disjT: "set ordO \<inter> set ordT = {}"
    and ent: "map (entry_of h1) ordT = map (entry_of h1) ordO"
    and fr: "\<forall>a. a < length h \<longrightarrow> lookup h1 a = lookup h a"
    and fresh: "\<forall>a \<in> set ordT. length h \<le> a"
    and lo: "load_ok other \<longrightarrow> load_ok T" by blast
  have lessM: "\<And>b. b \<in> set ordM \<Longrightarrow> b < length h" using inv_ord_less[OF invM] .
  have lessO: "\<And>b. b \<in> set ordO \<Longrightarrow> b < length h" using inv_ord_less[OF invO] .
  have invM1: "map_inv hasher h1 m ordM chsM"
    using inv_frame[OF invM] fr lessM by simp
  have disjMT: "set ordM \<inter> set ordT = {}" using fresh lessM by fastforce
  from clear_inv[OF invM1] obtain h2 mc where
    cl: "clear (h1, m) = Some (h2, mc)"
    and lk: "\<forall>b. lookup h2 b = (if b \<in> set ordM then None else lookup h1 b)" by blast
  have ex: "assign hasher this other_this tmp (h, m) other = Some (h2, T)"
    using ne c cl by (simp add: assign_def swap_maps_eq destroy_def)
  have sameT: "\<And>b. b \<in> set ordT \<Longrightarrow> lookup h2 b = lookup h1 b" using lk disjMT by fastforce
  have sameO: "\<And>b. b \<in> set ordO \<Longrightarrow> lookup h2 b = lookup h1 b" using lk disj by fastforce
  have invT2: "map_inv hasher h2 T ordT chsT" using inv_frame[OF invT sameT] .
  have invO2: "map_inv hasher h2 other ordO chsO" using inv_frame[OF invO1 sameO] .
  have sameO0: "\<And>b. b \<in> set ordO \<Longrightarrow> lookup h2 b = lookup h b"
    using sameO fr lessO by simp
  have t1: "traverse other_this (h2, other) = traverse other_this (h, other)"
    using inv_traverse[OF invO, of other_this] inv_traverse[OF invO2, of other_this]
      frame_entries[of ordO h2 h] sameO0 by simp
  have "map (entry_of h2) ordT = map (entry_of h1) ordT"
    using frame_entries[of ordT h2 h1] sameT by simp
  moreover have "map (entry_of h2) ordO = map (entry_of h1) ordO"
    using frame_entries[of ordO h2 h1] sameO by simp
  ultimately have "map (entry_of h2) ordT = map (entry_of h2) ordO" using ent by simp
  then have t2: "traverse this (h2, T) = traverse other_this (h, other)"
    using inv_traverse[OF invT2, of this] inv_traverse[OF invO2, of other_this] t1 by simp
  have "length ordT = length ordO" using ent by (metis length_map)
  then have sz: "size_of T = size_of other" using invO1 invT by (simp add: size_of_def map_inv_def)
  have "separate hasher h2 other T" unfolding separate_def using invO2 invT2 disjT by blast
  with ex t1 t2 sz lo show ?thesis by blast
qed

lemma assign_self: "assign hasher this this tmp (h, m) other = Some (h, m)"
  by (simp add: assign_def)

subsection \<open>An example container\<close>

lemma all_less_four: "(\<forall>i<4. P i) = (P 0 \<and> P 1 \<and> P 2 \<and> P (3::nat))"
  by (simp add: numeral_eq_Suc All_less_Suc conj_ac)

lemma example_inv:
  "map_inv (\<lambda>k. k) example_heap example_map [0, 1, 2] [[], [2, 0], [1], []]"
  unfolding map_inv_def
  by (simp add: node_ok_def lookup_def key_of_def pred_in_def lastp_Cons all_less_four)

lemma example_wf: "well_formed (\<lambda>k. k) (example_heap, example_map)"
  unfolding well_formed_def using example_inv by fastforce

lemma example_traverse:
  "traverse this (example_heap, example_map) = Some [(1, 10), (2, 20), (5, 50)]"
  using inv_traverse[OF example_inv, of this] by (simp add: entry_of_def lookup_def)

lemma example_live: "live_node (\<lambda>k. k) (example_heap, example_map) (Some 1)"
  using inv_live_node[OF example_inv, of "Some 1"] by simp

lemma empty_traverse: "traverse this (h, init) = Some []"
  using inv_traverse[OF inv_init, of this h] by simp

subsection \<open>Reachable states\<close>

lemma wf_load_erase:
  assumes wf: "well_formed hasher s" and lo: "load_ok (snd s)"
    and valid: "container pos = Some this \<longrightarrow> current pos \<noteq> None \<longrightarrow> live_node hasher s (current pos)"
    and er: "erase hasher this s pos = Some (s', e)"
  shows "well_formed hasher s' \<and> load_ok (snd s')"
proof (cases "current pos = None \<or> container pos \<noteq> Some this")
  case True
  obtain h m where s: "s = (h, m)" by (cases s)
  from True have "erase hasher this (h, m) pos = Some ((h, m), Some invalid_iterator)"
    by (auto simp: erase_def iterator_eq_def end_it_def)
  with er s wf lo show ?thesis by simp
next
  case False
  obtain h m where s: "s = (h, m)" by (cases s)
  with wf obtain ord chs where inv: "map_inv hasher h m ord chs" by (auto simp: well_formed_def)
  from False valid s have "live_node hasher (h, m) (current pos)" by simp
  then obtain a where a: "a \<in> set ord" "current pos = Some a"
    using inv_live_node[OF inv] by auto
  with False have pos: "pos = iterator (Some a) (Some this)" by (cases pos) simp
  from erase_full[OF inv a(1), of this] er pos s obtain h' m' chs' where
    s': "s' = (h', m')" and inv': "map_inv hasher h' m' (remove1 a ord) chs'"
    and ec: "Suc (element_count m') = element_count m"
    and bc: "bucket_count m' = bucket_count m" by auto
  have "load_ok m'" using lo s ec bc by (auto simp: load_ok_def)
  moreover have "well_formed hasher (h', m')" using inv' by (auto simp: well_formed_def)
  ultimately show ?thesis using s' by simp
qed

lemma index_access_cases:
  assumes "index_access hasher dflt this s key = Some (s', a)"
  shows "s' = s \<or> (\<exists>r. insert_entry hasher this s (key, dflt) = Some (s', r))"
  using assms
  by (auto simp: index_access_def split: if_splits Option.bind_splits)

lemma reachable_inv: "reachable hasher s \<Longrightarrow> well_formed hasher s \<and> load_ok (snd s)"
proof (induction rule: reachable.induct)
  case (constructed h)
  then show ?case using wf_init load_ok_init by simp
next
  case (copied h other this other_this s)
  then obtain ord chs where inv: "map_inv hasher h other ord chs" by (auto simp: well_formed_def)
  from copy_construct_separate[OF inv, of this other_this] copied obtain h' Y where
    "s = (h', Y)" "separate hasher h' other Y" "load_ok Y" by auto
  then show ?case by (auto simp: separate_def well_formed_def)
next
  case (assigned h m other this other_this tmp s)
  show ?case
  proof (cases "this = other_this")
    case True
    with assigned show ?thesis by (simp add: assign_def)
  next
    case False
    from assign_separate[OF assigned(3) False, of tmp] assigned obtain h' m' where
      "s = (h', m')" "separate hasher h' other m'" "load_ok m'" by auto
    then show ?thesis by (auto simp: separate_def well_formed_def)
  qed
next
  case (inserted s this val s' r)
  obtain h m where s: "s = (h, m)" by (cases s)
  obtain h' m' where s': "s' = (h', m')" by (cases s')
  from inserted s s' have "well_formed hasher s'" "load_ok m'"
    using wf_insert[of hasher s this val s' r] load_ok_insert[of hasher h m this val h' m' r]
    by auto
  with s' show ?case by simp
next
  case (erased s pos this s' e)
  then show ?case using wf_load_erase[of hasher s pos this s' e] by simp
next
  case (indexed s dflt this key s' a)
  from index_access_cases[OF indexed(2)] show ?case
  proof
    assume "s' = s"
    with indexed show ?thesis by simp
  next
    assume "\<exists>r. insert_entry hasher this s (key, dflt) = Some (s', r)"
    then obtain r where ins: "insert_entry hasher this s (key, dflt) = Some (s', r)" by blast
    obtain h m where s: "s = (h, m)" by (cases s)
    obtain h' m' where s': "s' = (h', m')" by (cases s')
    from indexed ins s s' have "well_formed hasher s'" "load_ok m'"
      using wf_insert[of hasher s this "(key, dflt)" s' r]
        load_ok_insert[of hasher h m this "(key, dflt)" h' m' r]
      by auto
    with s' show ?thesis by simp
  qed
next
  case (cleared s s')
  obtain h m where s: "s = (h, m)" by (cases s)
  with cleared obtain ord chs where inv: "map_inv hasher h m ord chs" by (auto simp: well_formed_def)
  from clear_inv[OF inv] cleared(2) s obtain h' where
    s': "s' = (h', m\<lparr>head := None, tail := None, element_count := 0,
                     buckets := replicate (bucket_count m) None\<rparr>)"
    and inv': "map_inv hasher h' (m\<lparr>head := None, tail := None, element_count := 0,
                                buckets := replicate (bucket_count m) None\<rparr>) []
             (replicate (bucket_count m) [])" by auto
  have "load_ok (m\<lparr>head := None, tail := None, element_count := 0,
                     buckets := replicate (bucket_count m) None\<rparr>)"
    using cleared s by (simp add: load_ok_def)
  with s' inv' show ?case by (auto simp: well_formed_def)
next
  case (framed h m h')
  then obtain ord chs where inv: "map_inv hasher h m ord chs" by (auto simp: well_formed_def)
  have "\<And>a. a \<in> set ord \<Longrightarrow> lookup h' a = lookup h a"
    using framed(2) inv_live_node[OF inv] by simp
  from inv_frame[OF inv this] framed show ?case by (auto simp: well_formed_def)
qed

subsection \<open>Running the loops on a given heap\<close>

lemma chain_walk_None: "chain_walk h None k = Some None"
  by (subst chain_walk.simps) simp

lemma chain_walk_Some:
  "lookup h a = Some nd \<Longrightarrow>
   chain_walk h (Some a) k = (if fst (data nd) = k then Some (Some a) else chain_walk h (next nd) k)"
  by (subst chain_walk.simps) simp

lemma collect_end: "collect h (iterator None c) (iterator None c') = Some []"
  by (subst collect.simps) (simp add: iterator_eq_def)

lemma collect_step:
  "lookup h a = Some nd \<Longrightarrow>
   collect h (iterator (Some a) c) (iterator None c')
     = do { vals \<leftarrow> collect h (iterator (list_next nd) c) (iterator None c'); Some (data nd # vals) }"
  by (subst collect.simps) (simp add: iterator_eq_def iterator_deref_def iterator_inc_def)

lemma insert_all_reachable:
  "reachable hasher s \<Longrightarrow> insert_all hasher this s vals = Some s' \<Longrightarrow> reachable hasher s'"
proof (induction vals arbitrary: s)
  case Nil
  then show ?case by simp
next
  case (Cons val vals)
  from Cons.prems(2) obtain s1 r where
    1: "insert_entry hasher this s val = Some (s1, r)" and 2: "insert_all hasher this s1 vals = Some s'"
    by (auto split: Option.bind_splits)
  from Cons.IH[OF reachable.inserted[OF Cons.prems(1) 1] 2] show ?case .
qed

lemma replicate_16: "replicate 16 x = [x, x, x, x, x, x, x, x, x, x, x, x, x, x, x, x]"
  by (simp add: numeral_eq_Suc)

lemmas run_simps = replicate_16 insert_entry_def ensure_capacity_def init_def INITIAL_CAPACITY_def hash_index_def
  bucket_at_def chain_walk_None chain_walk_Some alloc_def modify_def new_Node_def lookup_def Let_def

lemma full_built:
  "insert_all (\<lambda>k. k) 0 ([], init)
     [(0, 0), (1, 10), (2, 20), (3, 30), (4, 40), (5, 50), (6, 60), (7, 70), (8, 80), (9, 90),
      (10, 100), (17, 170)] = Some (full_heap, full_map)"
  by (simp add: run_simps)

lemma full_traverse:
  "traverse this (full_heap, full_map) =
     Some [(0, 0), (1, 10), (2, 20), (3, 30), (4, 40), (5, 50), (6, 60), (7, 70), (8, 80), (9, 90),
      (10, 100), (17, 170)]"
  by (simp add: traverse_def begin_it_def end_it_def collect_end collect_step lookup_def)

lemma chain_walk_dangling: "lookup h a = None \<Longrightarrow> chain_walk h (Some a) k = None"
  by (subst chain_walk.simps) simp

lemma collect_dangling:
  "lookup h a = None \<Longrightarrow> collect h (iterator (Some a) c) (iterator None c') = None"
  by (subst collect.simps) (simp add: iterator_eq_def iterator_deref_def)

section \<open>The claims\<close>

text \<open>
  C1. Inserting a key that is already present returns an iterator to the
  existing entry paired with false; the stored value, the iteration order and
  the size are unchanged.
\<close>

theorem insert_existing_key_is_noop:
  assumes "well_formed hasher (h, m)" and "traverse this (h, m) = Some es" and "(k, v0) \<in> set es"
  shows "\<exists>h' m' a. insert_entry hasher this (h, m) (k, v)
            = Some ((h', m'), iterator (Some a) (Some this), False) \<and>
          find_key hasher this (h, m) k = Some (iterator (Some a) (Some this)) \<and>
          iterator_deref h' (iterator (Some a) (Some this)) = Some (k, v0) \<and>
          traverse this (h', m') = Some es \<and> size_of m' = size_of m \<and>
          well_formed hasher (h', m')"
proof -
  from assms(1) obtain ord chs where inv: "map_inv hasher h m ord chs"
    by (auto simp: well_formed_def)
  have es: "es = map (entry_of h) ord" using inv_entries[OF inv assms(2)] .
  from find_addr_entry[OF inv_distinct_keys[OF inv]] assms(3) es obtain a where
    a: "find_addr h ord k = Some a" "a \<in> set ord" "entry_of h a = (k, v0)" by blast
  from insert_dup_inv[OF inv, of "(k, v)" a this] a(1) obtain h' m' chs' where
    ins: "insert_entry hasher this (h, m) (k, v) = Some ((h', m'), iterator (Some a) (Some this), False)"
    and inv': "map_inv hasher h' m' ord chs'" and so: "same_order h h'"
    and ec: "element_count m' = element_count m" by auto
  have fk: "find_key hasher this (h, m) k = Some (iterator (Some a) (Some this))"
    using inv_find_key[OF inv, of this k] a(1) by simp
  have "lookup h' a \<noteq> None" using inv_lookup[OF inv' a(2)] by auto
  then have de: "iterator_deref h' (iterator (Some a) (Some this)) = Some (k, v0)"
    using a(3) so by (simp add: deref_entry same_order_entry)
  have tr: "traverse this (h', m') = Some es"
    using inv_traverse[OF inv', of this] so es by (simp add: same_order_entry)
  have "well_formed hasher (h', m')" using inv' by (auto simp: well_formed_def)
  with ins fk de tr ec show ?thesis by (auto simp: size_of_def)
qed

theorem insert_existing_key_is_noop_witness:
  "well_formed (\<lambda>k. k) (example_heap, example_map) \<and>
   traverse 0 (example_heap, example_map) = Some [(1, 10), (2, 20), (5, 50)] \<and>
   (\<exists>h' m' a. insert_entry (\<lambda>k. k) 0 (example_heap, example_map) (5, 99)
            = Some ((h', m'), iterator (Some a) (Some 0), False) \<and>
          find_key (\<lambda>k. k) 0 (example_heap, example_map) 5 = Some (iterator (Some a) (Some 0)) \<and>
          iterator_deref h' (iterator (Some a) (Some 0)) = Some (5, 50) \<and>
          traverse 0 (h', m') = Some [(1, 10), (2, 20), (5, 50)] \<and>
          size_of m' = size_of example_map \<and>
          well_formed (\<lambda>k. k) (h', m'))"
  using insert_existing_key_is_noop[OF example_wf example_traverse, of 5 50 0 99]
    example_wf example_traverse[of 0]
  by simp

text \<open>
  C2. In every reachable state an insertion returns. It adds an entry exactly
  when the key is new, at the end of the iteration order, and after it the
  size is at most 0.75 times the capacity, that is \<open>4 * size \<le> 3 * capacity\<close>.
  The capacity of the result is the one \<^verbatim>\<open>ensure_capacity\<close> produced on the
  state before the insertion, doubled exactly when \<open>3 * capacity \<le> 4 * size\<close>
  held there; at that point the entries and their order are still the old
  ones and there is already room for one more entry.
\<close>

theorem load_factor_after_insert:
  assumes "reachable hasher (h, m)"
  shows "\<exists>es h1 m1 h' m' it b.
          traverse this (h, m) = Some es \<and> size_of m = length es \<and>
          ensure_capacity hasher (h, m) = Some (h1, m1) \<and>
          traverse this (h1, m1) = Some es \<and> size_of m1 = size_of m \<and>
          bucket_count m1 = (if 3 * bucket_count m \<le> 4 * size_of m
                             then 2 * bucket_count m else bucket_count m) \<and>
          4 * (size_of m1 + 1) \<le> 3 * bucket_count m1 \<and>
          insert_entry hasher this (h, m) val = Some ((h', m'), it, b) \<and>
          b = (fst val \<notin> fst ` set es) \<and>
          traverse this (h', m') = Some (if b then es @ [val] else es) \<and>
          size_of m' = (if b then size_of m + 1 else size_of m) \<and>
          bucket_count m' = bucket_count m1 \<and>
          4 * size_of m' \<le> 3 * bucket_count m' \<and> reachable hasher (h', m')"
proof -
  from reachable_inv[OF assms] have wf: "well_formed hasher (h, m)" and lo: "load_ok m" by simp_all
  from wf obtain ord chs where inv: "map_inv hasher h m ord chs"
    by (auto simp: well_formed_def)
  let ?es = "map (entry_of h) ord"
  have tr0: "traverse this (h, m) = Some ?es" using inv_traverse[OF inv] .
  have sz: "size_of m = length ?es" using inv by (simp add: size_of_def map_inv_def)
  from ensure_inv[OF inv] obtain h1 m1 chs1 where
    e: "ensure_capacity hasher (h, m) = Some (h1, m1)" and i1: "map_inv hasher h1 m1 ord chs1"
    and so: "same_order h h1"
    and ec: "element_count m1 = element_count m"
    and bc: "bucket_count m1 = (if 3 * bucket_count m \<le> 4 * element_count m
                              then bucket_count m * 2 else bucket_count m)" by blast
  have tr: "traverse this (h1, m1) = Some ?es"
    using inv_traverse[OF i1, of this] so by (simp add: same_order_entry)
  have st: "4 * (size_of m1 + 1) \<le> 3 * bucket_count m1"
    using load_ok_step[OF lo inv_pos[OF inv]] ec bc by (simp add: size_of_def)
  show ?thesis
  proof (cases "find_addr h ord (fst val)")
    case None
    then have "fst val \<notin> key_of h ` set ord" by (simp add: find_addr_None)
    moreover have "key_of h ` set ord = fst ` set ?es" by (auto simp: key_of_entry)
    ultimately have new: "fst val \<notin> fst ` set ?es" by simp
    from insert_new_inv[OF inv None, of this] obtain h' m' chs' where
      ins: "insert_entry hasher this (h, m) val = Some ((h', m'), iterator (Some (length h)) (Some this), True)"
      and inv': "map_inv hasher h' m' (ord @ [length h]) chs'"
      and ent: "\<forall>a \<in> set ord. entry_of h' a = entry_of h a"
      and enew: "entry_of h' (length h) = val"
      and ec': "element_count m' = Suc (element_count m)"
      and bc': "bucket_count m' = (if 3 * bucket_count m \<le> 4 * element_count m
                              then bucket_count m * 2 else bucket_count m)" by blast
    have "map (entry_of h') ord = ?es" using ent by auto
    then have tr': "traverse this (h', m') = Some (?es @ [val])"
      using inv_traverse[OF inv', of this] enew by simp
    have r: "reachable hasher (h', m')" using reachable.inserted[OF assms ins] .
    show ?thesis using tr0 sz e tr ec st ins new tr' ec' bc' bc r
      by (intro exI[of _ ?es] exI[of _ h1] exI[of _ m1] exI[of _ h'] exI[of _ m']
                exI[of _ "iterator (Some (length h)) (Some this)"] exI[of _ True])
         (simp add: size_of_def)
  next
    case (Some a)
    then have "a \<in> set ord" "key_of h a = fst val" by (auto dest: find_addr_Some)
    then have "fst val \<in> key_of h ` set ord" by (metis imageI)
    moreover have "key_of h ` set ord = fst ` set ?es" by (auto simp: key_of_entry)
    ultimately have old: "fst val \<in> fst ` set ?es" by simp
    from insert_dup_inv[OF inv Some, of this] obtain h' m' chs' where
      ins: "insert_entry hasher this (h, m) val = Some ((h', m'), iterator (Some a) (Some this), False)"
      and inv': "map_inv hasher h' m' ord chs'" and so': "same_order h h'"
      and ec': "element_count m' = element_count m"
      and bc': "bucket_count m' = (if 3 * bucket_count m \<le> 4 * element_count m
                              then bucket_count m * 2 else bucket_count m)" by blast
    have tr': "traverse this (h', m') = Some ?es"
      using inv_traverse[OF inv', of this] so' by (simp add: same_order_entry)
    have r: "reachable hasher (h', m')" using reachable.inserted[OF assms ins] .
    have "4 * element_count m \<le> 3 * bucket_count m1"
      using st ec by (simp add: size_of_def)
    then show ?thesis using tr0 sz e tr ec st ins old tr' ec' bc' bc r
      by (intro exI[of _ ?es] exI[of _ h1] exI[of _ m1] exI[of _ h'] exI[of _ m']
                exI[of _ "iterator (Some a) (Some this)"] exI[of _ False])
         (simp add: size_of_def)
  qed
qed

theorem load_factor_after_insert_witness:
  "reachable (\<lambda>k. k) (full_heap, full_map) \<and>
   3 * bucket_count full_map \<le> 4 * size_of full_map \<and>
   (\<exists>h1 m1 h' m' it.
      ensure_capacity (\<lambda>k. k) (full_heap, full_map) = Some (h1, m1) \<and> bucket_count m1 = 32 \<and>
      insert_entry (\<lambda>k. k) 0 (full_heap, full_map) (33, 330) = Some ((h', m'), it, True) \<and>
      traverse 0 (h', m') =
        Some [(0, 0), (1, 10), (2, 20), (3, 30), (4, 40), (5, 50), (6, 60), (7, 70), (8, 80),
              (9, 90), (10, 100), (17, 170), (33, 330)] \<and>
      size_of m' = 13 \<and> bucket_count m' = 32 \<and> 4 * size_of m' \<le> 3 * bucket_count m' \<and>
      reachable (\<lambda>k. k) (h', m')) \<and>
   (\<exists>h' m' it.
      insert_entry (\<lambda>k. k) 0 (full_heap, full_map) (17, 0) = Some ((h', m'), it, False) \<and>
      traverse 0 (h', m') =
        Some [(0, 0), (1, 10), (2, 20), (3, 30), (4, 40), (5, 50), (6, 60), (7, 70), (8, 80),
              (9, 90), (10, 100), (17, 170)] \<and>
      size_of m' = 12 \<and> bucket_count m' = 32 \<and> 4 * size_of m' \<le> 3 * bucket_count m')"
proof -
  have c: "reachable (\<lambda>k::nat. k) ([] :: (nat, nat) heap, init)" by (rule reachable.constructed)
  have r: "reachable (\<lambda>k. k) (full_heap, full_map)"
    using insert_all_reachable[OF c full_built] .
  have t: "3 * bucket_count full_map \<le> 4 * size_of full_map" by (simp add: size_of_def)
  have 1: "\<exists>h1 m1 h' m' it.
      ensure_capacity (\<lambda>k. k) (full_heap, full_map) = Some (h1, m1) \<and> bucket_count m1 = 32 \<and>
      insert_entry (\<lambda>k. k) 0 (full_heap, full_map) (33, 330) = Some ((h', m'), it, True) \<and>
      traverse 0 (h', m') =
        Some [(0, 0), (1, 10), (2, 20), (3, 30), (4, 40), (5, 50), (6, 60), (7, 70), (8, 80),
              (9, 90), (10, 100), (17, 170), (33, 330)] \<and>
      size_of m' = 13 \<and> bucket_count m' = 32 \<and> 4 * size_of m' \<le> 3 * bucket_count m' \<and>
      reachable (\<lambda>k. k) (h', m')"
    using load_factor_after_insert[OF r, of 0 "(33, 330)"] full_traverse[of 0]
    by (auto simp: size_of_def)
  have 2: "\<exists>h' m' it.
      insert_entry (\<lambda>k. k) 0 (full_heap, full_map) (17, 0) = Some ((h', m'), it, False) \<and>
      traverse 0 (h', m') =
        Some [(0, 0), (1, 10), (2, 20), (3, 30), (4, 40), (5, 50), (6, 60), (7, 70), (8, 80),
              (9, 90), (10, 100), (17, 170)] \<and>
      size_of m' = 12 \<and> bucket_count m' = 32 \<and> 4 * size_of m' \<le> 3 * bucket_count m'"
    using load_factor_after_insert[OF r, of 0 "(17, 0)"] full_traverse[of 0]
    by (auto simp: size_of_def)
  from r t 1 2 show ?thesis by blast
qed

text \<open>
  C3. In an empty container, inserting three distinct keys \<open>a\<close>, \<open>b\<close>, \<open>c\<close> and
  traversing from \<^verbatim>\<open>begin()\<close> to \<^verbatim>\<open>end()\<close> gives \<open>a\<close>, \<open>b\<close>, \<open>c\<close>; erasing \<open>b\<close>
  and inserting it again gives \<open>a\<close>, \<open>c\<close>, \<open>b\<close>.
\<close>

theorem iteration_follows_insertion_order:
  assumes "well_formed hasher s0" and "traverse this s0 = Some []"
    and "a \<noteq> b" and "a \<noteq> c" and "b \<noteq> c"
  shows "\<exists>s1 s2 s3 s4 s5 i1 i2 i3 i5 itb.
          insert_entry hasher this s0 (a, va) = Some (s1, i1, True) \<and>
          insert_entry hasher this s1 (b, vb) = Some (s2, i2, True) \<and>
          insert_entry hasher this s2 (c, vc) = Some (s3, i3, True) \<and>
          traverse this s3 = Some [(a, va), (b, vb), (c, vc)] \<and>
          find_key hasher this s3 b = Some itb \<and>
          erase hasher this s3 itb = Some (s4, None) \<and>
          traverse this s4 = Some [(a, va), (c, vc)] \<and>
          insert_entry hasher this s4 (b, vb') = Some (s5, i5, True) \<and>
          traverse this s5 = Some [(a, va), (c, vc), (b, vb')]"
proof -
  from wf_insert_new[OF assms(1,2), of a va] obtain s1 i1 where
    1: "insert_entry hasher this s0 (a, va) = Some (s1, i1, True)"
    "traverse this s1 = Some [(a, va)]" "well_formed hasher s1" by auto
  from wf_insert_new[OF 1(3) 1(2), of b vb] assms(3) obtain s2 i2 where
    2: "insert_entry hasher this s1 (b, vb) = Some (s2, i2, True)"
    "traverse this s2 = Some [(a, va), (b, vb)]" "well_formed hasher s2" by auto
  from wf_insert_new[OF 2(3) 2(2), of c vc] assms(4,5) obtain s3 i3 where
    3: "insert_entry hasher this s2 (c, vc) = Some (s3, i3, True)"
    "traverse this s3 = Some [(a, va), (b, vb), (c, vc)]" "well_formed hasher s3" by auto
  from wf_erase_found[OF 3(3) 3(2), of b vb] assms(3) obtain s4 itb where
    4: "find_key hasher this s3 b = Some itb" "erase hasher this s3 itb = Some (s4, None)"
    "traverse this s4 = Some [(a, va), (c, vc)]" "well_formed hasher s4" by auto
  from wf_insert_new[OF 4(4) 4(3), of b vb'] assms(3,5) obtain s5 i5 where
    5: "insert_entry hasher this s4 (b, vb') = Some (s5, i5, True)"
    "traverse this s5 = Some [(a, va), (c, vc), (b, vb')]" by auto
  from 1 2 3 4 5 show ?thesis by blast
qed

theorem iteration_follows_insertion_order_witness:
  "well_formed (\<lambda>k. k) ([] :: (nat, nat) heap, init) \<and>
   traverse 0 ([] :: (nat, nat) heap, init) = Some [] \<and>
   (1::nat) \<noteq> 2 \<and> (1::nat) \<noteq> 3 \<and> (2::nat) \<noteq> 3 \<and>
   (\<exists>s1 s2 s3 s4 s5 i1 i2 i3 i5 itb.
          insert_entry (\<lambda>k. k) 0 ([], init) (1, 10::nat) = Some (s1, i1, True) \<and>
          insert_entry (\<lambda>k. k) 0 s1 (2, 20) = Some (s2, i2, True) \<and>
          insert_entry (\<lambda>k. k) 0 s2 (3, 30) = Some (s3, i3, True) \<and>
          traverse 0 s3 = Some [(1, 10), (2, 20), (3, 30)] \<and>
          find_key (\<lambda>k. k) 0 s3 2 = Some itb \<and>
          erase (\<lambda>k. k) 0 s3 itb = Some (s4, None) \<and>
          traverse 0 s4 = Some [(1, 10), (3, 30)] \<and>
          insert_entry (\<lambda>k. k) 0 s4 (2, 21) = Some (s5, i5, True) \<and>
          traverse 0 s5 = Some [(1, 10), (3, 30), (2, 21)])"
proof -
  have w: "well_formed (\<lambda>k::nat. k) ([] :: (nat, nat) heap, init)" by (rule wf_init)
  have t: "traverse 0 ([] :: (nat, nat) heap, init) = Some []" by (rule empty_traverse)
  have n: "(1::nat) \<noteq> 2" "(1::nat) \<noteq> 3" "(2::nat) \<noteq> 3" by simp_all
  show ?thesis
    using iteration_follows_insertion_order[OF w t n, of 10 20 30 21] w t n by simp
qed

text \<open>
  C4. A rehash to any positive capacity relinks every entry into the new bucket
  chains, so every lookup gives the same node as before, and leaves the data
  and the order links of every node, the head, the tail, the size and the
  iteration order unchanged.
\<close>

theorem rehash_keeps_entries_and_order:
  assumes "well_formed hasher (h, m)" and "0 < new_capacity"
  shows "\<exists>h' m'. rehash hasher new_capacity (h, m) = Some (h', m') \<and>
          (\<forall>k. find_key hasher this (h', m') k = find_key hasher this (h, m) k) \<and>
          same_order h h' \<and> head m' = head m \<and> tail m' = tail m \<and> size_of m' = size_of m \<and>
          traverse this (h', m') = traverse this (h, m) \<and>
          bucket_count m' = new_capacity \<and> well_formed hasher (h', m')"
proof -
  from assms(1) obtain ord chs where inv: "map_inv hasher h m ord chs"
    by (auto simp: well_formed_def)
  from rehash_inv[OF inv assms(2)] obtain h' nb chs' where
    r: "rehash hasher new_capacity (h, m) = Some (h', m\<lparr>buckets := nb, bucket_count := new_capacity\<rparr>)"
    and inv': "map_inv hasher h' (m\<lparr>buckets := nb, bucket_count := new_capacity\<rparr>) ord chs'"
    and so: "same_order h h'" by blast
  let ?m = "m\<lparr>buckets := nb, bucket_count := new_capacity\<rparr>"
  have fk: "\<forall>k. find_key hasher this (h', ?m) k = find_key hasher this (h, m) k"
    using inv_find_key[OF inv, of this] inv_find_key[OF inv', of this] so
    by (simp add: same_order_find_addr)
  have tr: "traverse this (h', ?m) = traverse this (h, m)"
    using inv_traverse[OF inv, of this] inv_traverse[OF inv', of this] so
    by (simp add: same_order_entry)
  have "well_formed hasher (h', ?m)" using inv' by (auto simp: well_formed_def)
  with r fk so tr show ?thesis
    by (intro exI[of _ h'] exI[of _ ?m]) (simp add: size_of_def)
qed

theorem rehash_keeps_entries_and_order_witness:
  "well_formed (\<lambda>k. k) (example_heap, example_map) \<and> (0::nat) < 8 \<and>
   (\<exists>h' m'. rehash (\<lambda>k. k) 8 (example_heap, example_map) = Some (h', m') \<and>
          (\<forall>k. find_key (\<lambda>k. k) 0 (h', m') k = find_key (\<lambda>k. k) 0 (example_heap, example_map) k) \<and>
          same_order example_heap h' \<and> head m' = head example_map \<and> tail m' = tail example_map \<and>
          size_of m' = size_of example_map \<and>
          traverse 0 (h', m') = traverse 0 (example_heap, example_map) \<and>
          bucket_count m' = 8 \<and> well_formed (\<lambda>k. k) (h', m'))"
proof -
  have p: "(0::nat) < 8" by simp
  show ?thesis
    using rehash_keeps_entries_and_order[OF example_wf p, of 0] example_wf by simp
qed

text \<open>
  C5. \<^verbatim>\<open>erase\<close> is to throw \<^verbatim>\<open>invalid_iterator\<close> when the iterator is past-the-end
  or belongs to a different container, and otherwise to remove the referenced
  entry and decrease the size by one. The code decides "belongs to a different
  container" by the container address stored in the iterator. After
  \<^verbatim>\<open>a.insert({1, 10}); it = a.begin(); a.swap(b);\<close> with \<open>b\<close> empty, \<open>it\<close> still
  carries the address of \<open>a\<close> (here 0) while its node is the entry of \<open>b\<close>
  (at address 1). \<^verbatim>\<open>a.erase(it)\<close> then throws nothing: the size of the empty \<open>a\<close>
  wraps to \<open>SIZE_MAX\<close>, and the node is freed while \<open>b\<close> still has size 1 and
  links it as its head, so that a traversal or a lookup in \<open>b\<close> reads a freed
  node.
\<close>

theorem erase_with_iterator_kept_across_swap:
  "insert_entry (\<lambda>k. k) 0 ([], init) (1, 10)
     = Some ((single_heap, single_map), iterator (Some 0) (Some 0), True) \<and>
   begin_it 0 single_map = iterator (Some 0) (Some 0) \<and>
   swap_maps single_map init = (init, single_map) \<and>
   traverse 0 (single_heap, init) = Some [] \<and>
   traverse 1 (single_heap, single_map) = Some [(1, 10)] \<and>
   erase (\<lambda>k. k) 0 (single_heap, init) (iterator (Some 0) (Some 0))
     = Some (([None], init\<lparr>element_count := SIZE_MAX\<rparr>), None) \<and>
   size_of (init\<lparr>element_count := SIZE_MAX\<rparr>) = 18446744073709551615 \<and>
   \<not> is_empty (init\<lparr>element_count := SIZE_MAX\<rparr>) \<and>
   size_of single_map = 1 \<and> head single_map = Some 0 \<and>
   lookup ([None] :: (nat, nat) heap) 0 = None \<and>
   traverse 1 ([None] :: (nat, nat) heap, single_map) = None \<and>
   find_key (\<lambda>k. k) 1 ([None] :: (nat, nat) heap, single_map) 1 = None"
proof -
  have 1: "insert_entry (\<lambda>k. k) 0 ([], init) (1, 10)
     = Some ((single_heap, single_map), iterator (Some 0) (Some 0), True)"
    by (simp add: run_simps)
  have 2: "begin_it 0 single_map = iterator (Some 0) (Some 0)" by (simp add: begin_it_def)
  have 3: "swap_maps single_map init = (init, single_map)" by (rule swap_maps_eq)
  have 4: "traverse 0 (single_heap, init) = Some []"
    by (simp add: traverse_def begin_it_def end_it_def collect_end init_def)
  have 5: "traverse 1 (single_heap, single_map) = Some [(1, 10)]"
    by (simp add: traverse_def begin_it_def end_it_def collect_end collect_step lookup_def)
  have 6: "erase (\<lambda>k. k) 0 (single_heap, init) (iterator (Some 0) (Some 0))
     = Some (([None], init\<lparr>element_count := SIZE_MAX\<rparr>), None)"
    by (simp add: erase_def iterator_eq_def end_it_def hash_index_def init_def INITIAL_CAPACITY_def
        replicate_16 lookup_def free_def)
  have 7: "size_of (init\<lparr>element_count := SIZE_MAX\<rparr>) = 18446744073709551615"
    "\<not> is_empty (init\<lparr>element_count := SIZE_MAX\<rparr>)"
    by (simp_all add: size_of_def is_empty_def SIZE_MAX_def)
  have 8: "size_of single_map = 1" "head single_map = Some 0"
    "lookup ([None] :: (nat, nat) heap) 0 = None"
    by (simp_all add: size_of_def lookup_def)
  have 9: "traverse 1 ([None] :: (nat, nat) heap, single_map) = None"
    by (simp add: traverse_def begin_it_def end_it_def collect_dangling lookup_def)
  have 10: "find_key (\<lambda>k. k) 1 ([None] :: (nat, nat) heap, single_map) 1 = None"
    by (simp add: find_key_def hash_index_def bucket_at_def chain_walk_dangling lookup_def)
  from 1 2 3 4 5 6 7 8 9 10 show ?thesis by simp
qed

text \<open>
  C6. \<^verbatim>\<open>at\<close>, in both overloads, and the read-only \<^verbatim>\<open>operator[]\<close> return a
  reference to the stored value when the key is present and throw
  \<^verbatim>\<open>index_out_of_bound\<close> when it is absent. None of them returns a new state:
  they only read.
\<close>

theorem at_returns_value_or_out_of_bound:
  assumes "well_formed hasher (h, m)" and "traverse this (h, m) = Some es"
  shows "(\<forall>v. (k, v) \<in> set es \<longrightarrow>
            (\<exists>a. at_key hasher this (h, m) k = Some (Inr a) \<and>
                 at_key_const hasher this (h, m) k = Some (Inr a) \<and>
                 index_access_const hasher this (h, m) k = Some (Inr a) \<and>
                 value_at h a = Some v \<and>
                 iterator_deref h (iterator (Some a) (Some this)) = Some (k, v))) \<and>
         (k \<notin> fst ` set es \<longrightarrow>
            at_key hasher this (h, m) k = Some (Inl index_out_of_bound) \<and>
            at_key_const hasher this (h, m) k = Some (Inl index_out_of_bound) \<and>
            index_access_const hasher this (h, m) k = Some (Inl index_out_of_bound))"
proof -
  from assms(1) obtain ord chs where inv: "map_inv hasher h m ord chs"
    by (auto simp: well_formed_def)
  have es: "es = map (entry_of h) ord" using inv_entries[OF inv assms(2)] .
  have fk: "find_key hasher this (h, m) k = Some (iterator (find_addr h ord k) (Some this))"
    using inv_find_key[OF inv] .
  have fc: "find_key_const hasher this (h, m) k = Some (const_iterator (find_addr h ord k) (Some this))"
    using inv_find_key_const[OF inv] .
  have present: "\<exists>a. at_key hasher this (h, m) k = Some (Inr a) \<and>
                 at_key_const hasher this (h, m) k = Some (Inr a) \<and>
                 index_access_const hasher this (h, m) k = Some (Inr a) \<and>
                 value_at h a = Some v \<and>
                 iterator_deref h (iterator (Some a) (Some this)) = Some (k, v)"
    if "(k, v) \<in> set es" for v
  proof -
    from find_addr_entry[OF inv_distinct_keys[OF inv]] that es obtain a where
      a: "find_addr h ord k = Some a" "a \<in> set ord" "entry_of h a = (k, v)" by blast
    from inv_lookup[OF inv a(2)] obtain nd where nd: "lookup h a = Some nd" by auto
    have "at_key hasher this (h, m) k = Some (Inr a)"
      using fk a(1) nd by (simp add: at_key_def iterator_eq_def end_it_def)
    moreover have "at_key_const hasher this (h, m) k = Some (Inr a)"
      using fc a(1) nd by (simp add: at_key_const_def const_iterator_eq_def cend_def)
    moreover have "value_at h a = Some v" using nd a(3) by (simp add: value_at_entry)
    moreover have "iterator_deref h (iterator (Some a) (Some this)) = Some (k, v)"
      using nd a(3) by (simp add: deref_entry)
    ultimately show ?thesis by (auto simp: index_access_const_def)
  qed
  have absent: "at_key hasher this (h, m) k = Some (Inl index_out_of_bound) \<and>
            at_key_const hasher this (h, m) k = Some (Inl index_out_of_bound) \<and>
            index_access_const hasher this (h, m) k = Some (Inl index_out_of_bound)"
    if "k \<notin> fst ` set es"
  proof -
    have n: "find_addr h ord k = None" using that es find_addr_absent[of k h ord] by simp
    have "at_key hasher this (h, m) k = Some (Inl index_out_of_bound)"
      using fk n by (simp add: at_key_def iterator_eq_def end_it_def)
    moreover have "at_key_const hasher this (h, m) k = Some (Inl index_out_of_bound)"
      using fc n by (simp add: at_key_const_def const_iterator_eq_def cend_def)
    ultimately show ?thesis by (simp add: index_access_const_def)
  qed
  from present absent show ?thesis by blast
qed

theorem at_returns_value_or_out_of_bound_witness:
  "well_formed (\<lambda>k. k) (example_heap, example_map) \<and>
   traverse 0 (example_heap, example_map) = Some [(1, 10), (2, 20), (5, 50)] \<and>
   (\<exists>a. at_key (\<lambda>k. k) 0 (example_heap, example_map) 5 = Some (Inr a) \<and>
        at_key_const (\<lambda>k. k) 0 (example_heap, example_map) 5 = Some (Inr a) \<and>
        index_access_const (\<lambda>k. k) 0 (example_heap, example_map) 5 = Some (Inr a) \<and>
        value_at example_heap a = Some 50) \<and>
   at_key (\<lambda>k. k) 0 (example_heap, example_map) 9 = Some (Inl index_out_of_bound) \<and>
   at_key_const (\<lambda>k. k) 0 (example_heap, example_map) 9 = Some (Inl index_out_of_bound) \<and>
   index_access_const (\<lambda>k. k) 0 (example_heap, example_map) 9 = Some (Inl index_out_of_bound)"
  using at_returns_value_or_out_of_bound[OF example_wf example_traverse, of 5 0]
    at_returns_value_or_out_of_bound[OF example_wf example_traverse, of 9 0]
    example_wf example_traverse[of 0]
  by auto

text \<open>
  C7. The mutable \<^verbatim>\<open>operator[]\<close> always returns. For a present key it returns a
  reference to the stored value and the state is the one it was given; for an
  absent key it appends an entry holding the default value, the size grows by
  one, and the reference returned is to that value.
\<close>

theorem index_access_inserts_default:
  assumes "well_formed hasher (h, m)" and "traverse this (h, m) = Some es"
  shows "(\<forall>v. (k, v) \<in> set es \<longrightarrow>
            (\<exists>a. index_access hasher dflt this (h, m) k = Some ((h, m), a) \<and>
                 value_at h a = Some v \<and>
                 iterator_deref h (iterator (Some a) (Some this)) = Some (k, v))) \<and>
         (k \<notin> fst ` set es \<longrightarrow>
            (\<exists>h' m' a. index_access hasher dflt this (h, m) k = Some ((h', m'), a) \<and>
                 value_at h' a = Some dflt \<and>
                 iterator_deref h' (iterator (Some a) (Some this)) = Some (k, dflt) \<and>
                 traverse this (h', m') = Some (es @ [(k, dflt)]) \<and>
                 size_of m' = size_of m + 1 \<and> well_formed hasher (h', m')))"
proof -
  from assms(1) obtain ord chs where inv: "map_inv hasher h m ord chs"
    by (auto simp: well_formed_def)
  have es: "es = map (entry_of h) ord" using inv_entries[OF inv assms(2)] .
  have fk: "find_key hasher this (h, m) k = Some (iterator (find_addr h ord k) (Some this))"
    using inv_find_key[OF inv] .
  have present: "\<exists>a. index_access hasher dflt this (h, m) k = Some ((h, m), a) \<and>
                 value_at h a = Some v \<and>
                 iterator_deref h (iterator (Some a) (Some this)) = Some (k, v)"
    if "(k, v) \<in> set es" for v
  proof -
    from find_addr_entry[OF inv_distinct_keys[OF inv]] that es obtain a where
      a: "find_addr h ord k = Some a" "a \<in> set ord" "entry_of h a = (k, v)" by blast
    from inv_lookup[OF inv a(2)] obtain nd where nd: "lookup h a = Some nd" by auto
    have "index_access hasher dflt this (h, m) k = Some ((h, m), a)"
      using fk a(1) nd by (simp add: index_access_def iterator_eq_def end_it_def)
    moreover have "value_at h a = Some v" using nd a(3) by (simp add: value_at_entry)
    moreover have "iterator_deref h (iterator (Some a) (Some this)) = Some (k, v)"
      using nd a(3) by (simp add: deref_entry)
    ultimately show ?thesis by blast
  qed
  have absent: "\<exists>h' m' a. index_access hasher dflt this (h, m) k = Some ((h', m'), a) \<and>
                 value_at h' a = Some dflt \<and>
                 iterator_deref h' (iterator (Some a) (Some this)) = Some (k, dflt) \<and>
                 traverse this (h', m') = Some (es @ [(k, dflt)]) \<and>
                 size_of m' = size_of m + 1 \<and> well_formed hasher (h', m')"
    if "k \<notin> fst ` set es"
  proof -
    have n: "find_addr h ord (fst (k, dflt)) = None"
      using that es find_addr_absent[of k h ord] by simp
    from insert_new_inv[OF inv n, of this] obtain h' m' chs' where
      ins: "insert_entry hasher this (h, m) (k, dflt)
             = Some ((h', m'), iterator (Some (length h)) (Some this), True)"
      and inv': "map_inv hasher h' m' (ord @ [length h]) chs'"
      and ent: "\<forall>a \<in> set ord. entry_of h' a = entry_of h a"
      and enew: "entry_of h' (length h) = (k, dflt)"
      and ec: "element_count m' = Suc (element_count m)" by blast
    have "length h \<in> set (ord @ [length h])" by simp
    from inv_lookup[OF inv' this] obtain nd where nd: "lookup h' (length h) = Some nd" by auto
    have ia: "index_access hasher dflt this (h, m) k = Some ((h', m'), length h)"
      using fk n ins nd by (simp add: index_access_def iterator_eq_def end_it_def)
    have va: "value_at h' (length h) = Some dflt" using nd enew by (simp add: value_at_entry)
    have de: "iterator_deref h' (iterator (Some (length h)) (Some this)) = Some (k, dflt)"
      using nd enew by (simp add: deref_entry)
    have "map (entry_of h') ord = map (entry_of h) ord" using ent by auto
    then have tr: "traverse this (h', m') = Some (es @ [(k, dflt)])"
      using inv_traverse[OF inv', of this] enew es by simp
    have "well_formed hasher (h', m')" using inv' by (auto simp: well_formed_def)
    with ia va de tr ec show ?thesis by (auto simp: size_of_def)
  qed
  from present absent show ?thesis by blast
qed

theorem index_access_inserts_default_witness:
  "well_formed (\<lambda>k. k) (example_heap, example_map) \<and>
   traverse 0 (example_heap, example_map) = Some [(1, 10), (2, 20), (5, 50)] \<and>
   (\<exists>a. index_access (\<lambda>k. k) 0 0 (example_heap, example_map) 5
           = Some ((example_heap, example_map), a) \<and>
        value_at example_heap a = Some 50) \<and>
   (\<exists>h' m' a. index_access (\<lambda>k. k) 0 0 (example_heap, example_map) 9 = Some ((h', m'), a) \<and>
        value_at h' a = Some 0 \<and>
        traverse 0 (h', m') = Some [(1, 10), (2, 20), (5, 50), (9, 0)] \<and>
        size_of m' = 4 \<and> well_formed (\<lambda>k. k) (h', m'))"
  using index_access_inserts_default[OF example_wf example_traverse, of 5 0 0]
    index_access_inserts_default[OF example_wf example_traverse, of 9 0 0]
    example_wf example_traverse[of 0]
  by (auto simp: size_of_def)

text \<open>
  C8. \<^verbatim>\<open>insert\<close> runs \<^verbatim>\<open>ensure_capacity\<close> before it looks for the key. On every
  call the capacity afterwards is the one \<^verbatim>\<open>ensure_capacity\<close> gives on the state
  before the call, doubled exactly when \<open>3 * capacity \<le> 4 * size\<close>, whether or
  not the key is present; for a present key the state after the call is the
  state \<^verbatim>\<open>ensure_capacity\<close> left. So an insert of a present key at a size that
  has reached the threshold doubles the capacity although no entry is added.
\<close>

theorem duplicate_insert_at_threshold_doubles_capacity:
  assumes "well_formed hasher (h, m)" and "traverse this (h, m) = Some es"
  shows "(\<exists>h1 m1 h' m' it b.
            ensure_capacity hasher (h, m) = Some (h1, m1) \<and>
            bucket_count m1 = (if 3 * bucket_count m \<le> 4 * size_of m
                               then 2 * bucket_count m else bucket_count m) \<and>
            insert_entry hasher this (h, m) (k, v) = Some ((h', m'), it, b) \<and>
            bucket_count m' = bucket_count m1 \<and> b = (k \<notin> fst ` set es) \<and>
            (\<not> b \<longrightarrow> (h', m') = (h1, m1))) \<and>
         (k \<in> fst ` set es \<and> 3 * bucket_count m \<le> 4 * size_of m \<longrightarrow>
            (\<exists>h' m' it. insert_entry hasher this (h, m) (k, v) = Some ((h', m'), it, False) \<and>
               bucket_count m' = 2 * bucket_count m \<and> size_of m' = size_of m \<and>
               traverse this (h', m') = Some es))"
proof -
  from assms(1) obtain ord chs where inv: "map_inv hasher h m ord chs"
    by (auto simp: well_formed_def)
  have es: "es = map (entry_of h) ord" using inv_entries[OF inv assms(2)] .
  show ?thesis
  proof (cases "k \<in> fst ` set es")
    case True
    from find_addr_present[OF inv_distinct_keys[OF inv]] True es obtain a where
      a: "find_addr h ord k = Some a" by blast
    from insert_dup_inv[OF inv, of "(k, v)" a this] a obtain h' m' chs' where
      ins: "insert_entry hasher this (h, m) (k, v) = Some ((h', m'), iterator (Some a) (Some this), False)"
      and e: "ensure_capacity hasher (h, m) = Some (h', m')"
      and inv': "map_inv hasher h' m' ord chs'" and so: "same_order h h'"
      and ec: "element_count m' = element_count m"
      and bc: "bucket_count m' = (if 3 * bucket_count m \<le> 4 * element_count m
                              then bucket_count m * 2 else bucket_count m)" by auto
    have tr: "traverse this (h', m') = Some es"
      using inv_traverse[OF inv', of this] so es by (simp add: same_order_entry)
    have 1: "\<exists>h1 m1 h' m' it b.
            ensure_capacity hasher (h, m) = Some (h1, m1) \<and>
            bucket_count m1 = (if 3 * bucket_count m \<le> 4 * size_of m
                               then 2 * bucket_count m else bucket_count m) \<and>
            insert_entry hasher this (h, m) (k, v) = Some ((h', m'), it, b) \<and>
            bucket_count m' = bucket_count m1 \<and> b = (k \<notin> fst ` set es) \<and>
            (\<not> b \<longrightarrow> (h', m') = (h1, m1))"
      using ins e bc True
      by (intro exI[of _ h'] exI[of _ m'] exI[of _ "iterator (Some a) (Some this)"] exI[of _ False])
         (simp add: size_of_def)
    have 2: "3 * bucket_count m \<le> 4 * size_of m \<longrightarrow>
            (\<exists>h' m' it. insert_entry hasher this (h, m) (k, v) = Some ((h', m'), it, False) \<and>
               bucket_count m' = 2 * bucket_count m \<and> size_of m' = size_of m \<and>
               traverse this (h', m') = Some es)"
      using ins ec bc tr by (auto simp: size_of_def)
    from 1 2 show ?thesis by blast
  next
    case False
    have n: "find_addr h ord (fst (k, v)) = None"
      using False es find_addr_absent[of k h ord] by simp
    from ensure_inv[OF inv] obtain h1 m1 where
      e: "ensure_capacity hasher (h, m) = Some (h1, m1)"
      and bc1: "bucket_count m1 = (if 3 * bucket_count m \<le> 4 * element_count m
                              then bucket_count m * 2 else bucket_count m)" by blast
    from insert_new_inv[OF inv n, of this] obtain h' m' where
      ins: "insert_entry hasher this (h, m) (k, v)
             = Some ((h', m'), iterator (Some (length h)) (Some this), True)"
      and bc: "bucket_count m' = (if 3 * bucket_count m \<le> 4 * element_count m
                              then bucket_count m * 2 else bucket_count m)" by blast
    have "\<exists>h1 m1 h' m' it b.
            ensure_capacity hasher (h, m) = Some (h1, m1) \<and>
            bucket_count m1 = (if 3 * bucket_count m \<le> 4 * size_of m
                               then 2 * bucket_count m else bucket_count m) \<and>
            insert_entry hasher this (h, m) (k, v) = Some ((h', m'), it, b) \<and>
            bucket_count m' = bucket_count m1 \<and> b = (k \<notin> fst ` set es) \<and>
            (\<not> b \<longrightarrow> (h', m') = (h1, m1))"
      using ins e bc bc1 False
      by (intro exI[of _ h1] exI[of _ m1] exI[of _ h'] exI[of _ m']
            exI[of _ "iterator (Some (length h)) (Some this)"] exI[of _ True])
         (simp add: size_of_def)
    with False show ?thesis by blast
  qed
qed

theorem duplicate_insert_at_threshold_doubles_capacity_witness:
  "well_formed (\<lambda>k. k) (example_heap, example_map) \<and>
   traverse 0 (example_heap, example_map) = Some [(1, 10), (2, 20), (5, 50)] \<and>
   2 \<in> fst ` set [(1::nat, 10::nat), (2, 20), (5, 50)] \<and>
   3 * bucket_count example_map \<le> 4 * size_of example_map \<and>
   (\<exists>h' m' it. insert_entry (\<lambda>k. k) 0 (example_heap, example_map) (2, 99) = Some ((h', m'), it, False) \<and>
          bucket_count m' = 8 \<and> size_of m' = 3 \<and>
          traverse 0 (h', m') = Some [(1, 10), (2, 20), (5, 50)])"
proof -
  have k: "2 \<in> fst ` set [(1::nat, 10::nat), (2, 20), (5, 50)]" by simp
  have t: "3 * bucket_count example_map \<le> 4 * size_of example_map" by (simp add: size_of_def)
  show ?thesis
    using duplicate_insert_at_threshold_doubles_capacity[OF example_wf example_traverse, of 0 2 99]
      example_wf example_traverse[of 0] k t
    by (simp add: size_of_def)
qed

text \<open>
  C9. The copy constructor returns a container \<open>Y\<close> with the entries of \<open>X\<close> in
  the same order, built from new nodes: every cell of the heap that existed
  before the copy is left as it was, and the two containers share no node.
  Containers that share no node are independent: an insert or an erase on one
  of them leaves the traversal of the other unchanged and the two still share
  no node, so this holds after any number of operations on either. Assignment
  from a different container gives the same result as the copy, and
  self-assignment changes nothing.
\<close>

theorem copy_is_independent:
  assumes "well_formed hasher (h, X)"
  shows "(\<exists>h' Y. copy_construct hasher thisY thisX h X = Some (h', Y) \<and>
            traverse thisY (h', Y) = traverse thisX (h, X) \<and>
            traverse thisX (h', X) = traverse thisX (h, X) \<and>
            size_of Y = size_of X \<and>
            (\<forall>a. a < length h \<longrightarrow> lookup h' a = lookup h a) \<and>
            separate hasher h' X Y \<and> separate hasher h' Y X) \<and>
         (\<forall>m. separate hasher h m X \<longrightarrow> thisY \<noteq> thisX \<longrightarrow>
            (\<exists>h' m'. assign hasher thisY thisX tmp (h, m) X = Some (h', m') \<and>
               traverse thisY (h', m') = traverse thisX (h, X) \<and>
               traverse thisX (h', X) = traverse thisX (h, X) \<and>
               size_of m' = size_of X \<and>
               separate hasher h' X m' \<and> separate hasher h' m' X)) \<and>
         assign hasher thisX thisX tmp (h, X) X = Some (h, X) \<and>
         (\<forall>g A B thisA thisB val g' B' r.
            separate hasher g A B \<longrightarrow>
            insert_entry hasher thisB (g, B) val = Some ((g', B'), r) \<longrightarrow>
            traverse thisA (g', A) = traverse thisA (g, A) \<and> separate hasher g' A B' \<and>
            separate hasher g' B' A) \<and>
         (\<forall>g A B thisA thisB pos g' B' e.
            separate hasher g A B \<longrightarrow>
            (container pos = Some thisB \<longrightarrow> current pos \<noteq> None \<longrightarrow>
               live_node hasher (g, B) (current pos)) \<longrightarrow>
            erase hasher thisB (g, B) pos = Some ((g', B'), e) \<longrightarrow>
            traverse thisA (g', A) = traverse thisA (g, A) \<and> separate hasher g' A B' \<and>
            separate hasher g' B' A)"
proof -
  from assms obtain ord chs where inv: "map_inv hasher h X ord chs"
    by (auto simp: well_formed_def)
  have 1: "\<exists>h' Y. copy_construct hasher thisY thisX h X = Some (h', Y) \<and>
            traverse thisY (h', Y) = traverse thisX (h, X) \<and>
            traverse thisX (h', X) = traverse thisX (h, X) \<and>
            size_of Y = size_of X \<and>
            (\<forall>a. a < length h \<longrightarrow> lookup h' a = lookup h a) \<and>
            separate hasher h' X Y \<and> separate hasher h' Y X"
    using copy_construct_separate[OF inv, of thisY thisX] separate_sym[of hasher _ X] by blast
  have 2: "\<forall>m. separate hasher h m X \<longrightarrow> thisY \<noteq> thisX \<longrightarrow>
            (\<exists>h' m'. assign hasher thisY thisX tmp (h, m) X = Some (h', m') \<and>
               traverse thisY (h', m') = traverse thisX (h, X) \<and>
               traverse thisX (h', X) = traverse thisX (h, X) \<and>
               size_of m' = size_of X \<and>
               separate hasher h' X m' \<and> separate hasher h' m' X)"
  proof (intro allI impI)
    fix m assume "separate hasher h m X" "thisY \<noteq> thisX"
    from assign_separate[OF this, of tmp] separate_sym[of hasher _ X]
    show "\<exists>h' m'. assign hasher thisY thisX tmp (h, m) X = Some (h', m') \<and>
               traverse thisY (h', m') = traverse thisX (h, X) \<and>
               traverse thisX (h', X) = traverse thisX (h, X) \<and>
               size_of m' = size_of X \<and>
               separate hasher h' X m' \<and> separate hasher h' m' X" by blast
  qed
  have 3: "assign hasher thisX thisX tmp (h, X) X = Some (h, X)" by (rule assign_self)
  have 4: "\<forall>g A B thisA thisB val g' B' r.
            separate hasher g A B \<longrightarrow>
            insert_entry hasher thisB (g, B) val = Some ((g', B'), r) \<longrightarrow>
            traverse thisA (g', A) = traverse thisA (g, A) \<and> separate hasher g' A B' \<and>
            separate hasher g' B' A"
    using separate_insert separate_sym by blast
  have 5: "\<forall>g A B thisA thisB pos g' B' e.
            separate hasher g A B \<longrightarrow>
            (container pos = Some thisB \<longrightarrow> current pos \<noteq> None \<longrightarrow>
               live_node hasher (g, B) (current pos)) \<longrightarrow>
            erase hasher thisB (g, B) pos = Some ((g', B'), e) \<longrightarrow>
            traverse thisA (g', A) = traverse thisA (g, A) \<and> separate hasher g' A B' \<and>
            separate hasher g' B' A"
  proof (intro allI impI)
    fix g A B thisA thisB pos g' B' e
    assume s: "separate hasher g A B"
      and v: "container pos = Some thisB \<longrightarrow> current pos \<noteq> None \<longrightarrow>
               live_node hasher (g, B) (current pos)"
      and e: "erase hasher thisB (g, B) pos = Some ((g', B'), e)"
    from v have v': "container pos = Some thisB \<Longrightarrow> current pos \<noteq> None \<Longrightarrow>
               live_node hasher (g, B) (current pos)" by simp
    from separate_erase[OF s v' e, of thisA] separate_sym[of hasher g' A B']
    show "traverse thisA (g', A) = traverse thisA (g, A) \<and> separate hasher g' A B' \<and>
            separate hasher g' B' A" by blast
  qed
  from 1 2 3 4 5 show ?thesis by blast
qed

theorem copy_is_independent_witness:
  "well_formed (\<lambda>k. k) (example_heap, example_map) \<and>
   separate (\<lambda>k. k) example_heap init example_map \<and>
   (\<exists>h' Y. copy_construct (\<lambda>k. k) 1 0 example_heap example_map = Some (h', Y) \<and>
      traverse 1 (h', Y) = Some [(1, 10), (2, 20), (5, 50)] \<and>
      traverse 0 (h', example_map) = Some [(1, 10), (2, 20), (5, 50)] \<and>
      size_of Y = 3 \<and> separate (\<lambda>k. k) h' example_map Y \<and>
      (\<exists>g Y' r. insert_entry (\<lambda>k. k) 1 (h', Y) (7, 70) = Some ((g, Y'), r) \<and>
         traverse 1 (g, Y') = Some [(1, 10), (2, 20), (5, 50), (7, 70)] \<and>
         traverse 0 (g, example_map) = Some [(1, 10), (2, 20), (5, 50)])) \<and>
   (\<exists>h' m'. assign (\<lambda>k. k) 1 0 2 (example_heap, init) example_map = Some (h', m') \<and>
      traverse 1 (h', m') = Some [(1, 10), (2, 20), (5, 50)] \<and>
      traverse 0 (h', example_map) = Some [(1, 10), (2, 20), (5, 50)])"
proof -
  note main = copy_is_independent[OF example_wf, of 1 0 2]
  have sep0: "separate (\<lambda>k. k) example_heap init example_map"
    unfolding separate_def using inv_init example_inv by fastforce
  note copy = main[THEN conjunct1]
    and asg = main[THEN conjunct2, THEN conjunct1]
    and ins_indep = main[THEN conjunct2, THEN conjunct2, THEN conjunct2, THEN conjunct1]
  from copy obtain h' Y where
    c: "copy_construct (\<lambda>k. k) 1 0 example_heap example_map = Some (h', Y)"
    and t1: "traverse 1 (h', Y) = traverse 0 (example_heap, example_map)"
    and t0: "traverse 0 (h', example_map) = traverse 0 (example_heap, example_map)"
    and sz: "size_of Y = size_of example_map"
    and sep: "separate (\<lambda>k. k) h' example_map Y" by blast
  have wfY: "well_formed (\<lambda>k. k) (h', Y)" using sep by (auto simp: separate_def well_formed_def)
  have trY: "traverse 1 (h', Y) = Some [(1, 10), (2, 20), (5, 50)]"
    using t1 example_traverse[of 0] by simp
  have "7 \<notin> fst ` set [(1::nat, 10::nat), (2, 20), (5, 50)]" by simp
  from wf_insert_new[OF wfY trY this, of 70] obtain g Y' it where
    ins: "insert_entry (\<lambda>k. k) 1 (h', Y) (7, 70) = Some ((g, Y'), it, True)"
    and trY': "traverse 1 (g, Y') = Some ([(1, 10), (2, 20), (5, 50)] @ [(7, 70)])" by auto
  from ins_indep sep ins have "traverse 0 (g, example_map) = traverse 0 (h', example_map)" by blast
  then have trX: "traverse 0 (g, example_map) = Some [(1, 10), (2, 20), (5, 50)]"
    using t0 example_traverse[of 0] by simp
  have ne: "(1::nat) \<noteq> 0" by simp
  from asg sep0 ne obtain h2 m2 where
    a: "assign (\<lambda>k. k) 1 0 2 (example_heap, init) example_map = Some (h2, m2)"
    and a1: "traverse 1 (h2, m2) = traverse 0 (example_heap, example_map)"
    and a0: "traverse 0 (h2, example_map) = traverse 0 (example_heap, example_map)" by blast
  show ?thesis
    using example_wf sep0 c trY t0 sz sep ins trY' trX a a1 a0 example_traverse[of 0]
    by (auto simp: size_of_def)
qed

text \<open>
  C10. No step of an iterator faults at any position of a well-formed
  container: \<^verbatim>\<open>++\<close> and \<^verbatim>\<open>--\<close>, prefix and postfix, of both iterator classes
  return at the past-the-end position and at every entry. At the past-the-end
  position they leave the iterator as it is, and \<^verbatim>\<open>--\<close> on \<^verbatim>\<open>begin()\<close> gives
  \<^verbatim>\<open>end()\<close>.
\<close>

theorem iterator_steps_never_fault:
  assumes "well_formed hasher (h, m)"
    and "current it = None \<or> live_node hasher (h, m) (current it)"
    and "c_current cit = None \<or> live_node hasher (h, m) (c_current cit)"
  shows "(\<exists>it'. iterator_inc h it = Some it') \<and> (\<exists>it'. iterator_dec h it = Some it') \<and>
         (\<exists>it'. iterator_post_inc h it = Some (it', it)) \<and>
         (\<exists>it'. iterator_post_dec h it = Some (it', it)) \<and>
         (\<exists>it'. const_iterator_inc h cit = Some it') \<and> (\<exists>it'. const_iterator_dec h cit = Some it') \<and>
         (\<exists>it'. const_iterator_post_inc h cit = Some (it', cit)) \<and>
         (\<exists>it'. const_iterator_post_dec h cit = Some (it', cit)) \<and>
         (current it = None \<longrightarrow>
            iterator_inc h it = Some it \<and> iterator_dec h it = Some it \<and>
            iterator_post_inc h it = Some (it, it) \<and> iterator_post_dec h it = Some (it, it)) \<and>
         (c_current cit = None \<longrightarrow>
            const_iterator_inc h cit = Some cit \<and> const_iterator_dec h cit = Some cit \<and>
            const_iterator_post_inc h cit = Some (cit, cit) \<and>
            const_iterator_post_dec h cit = Some (cit, cit)) \<and>
         iterator_dec h (begin_it this m) = Some (end_it this) \<and>
         iterator_post_dec h (begin_it this m) = Some (end_it this, begin_it this m) \<and>
         const_iterator_dec h (cbegin this m) = Some (cend this) \<and>
         const_iterator_post_dec h (cbegin this m) = Some (cend this, cbegin this m)"
proof -
  from assms(1) obtain ord chs where inv: "map_inv hasher h m ord chs"
    by (auto simp: well_formed_def)
  have it: "current it = None \<or> (\<exists>a nd. current it = Some a \<and> lookup h a = Some nd)"
    using assms(2) inv_live_node[OF inv] inv_lookup[OF inv] by auto
  have cit: "c_current cit = None \<or> (\<exists>a nd. c_current cit = Some a \<and> lookup h a = Some nd)"
    using assms(3) inv_live_node[OF inv] inv_lookup[OF inv] by auto
  have s1: "(\<exists>it'. iterator_inc h it = Some it') \<and> (\<exists>it'. iterator_dec h it = Some it') \<and>
         (\<exists>it'. iterator_post_inc h it = Some (it', it)) \<and>
         (\<exists>it'. iterator_post_dec h it = Some (it', it))"
    using it by (auto simp: iterator_inc_def iterator_dec_def iterator_post_inc_def
        iterator_post_dec_def Let_def)
  have s2: "(\<exists>it'. const_iterator_inc h cit = Some it') \<and> (\<exists>it'. const_iterator_dec h cit = Some it') \<and>
         (\<exists>it'. const_iterator_post_inc h cit = Some (it', cit)) \<and>
         (\<exists>it'. const_iterator_post_dec h cit = Some (it', cit))"
    using cit by (auto simp: const_iterator_inc_def const_iterator_dec_def
        const_iterator_post_inc_def const_iterator_post_dec_def Let_def)
  have s3: "current it = None \<longrightarrow>
            iterator_inc h it = Some it \<and> iterator_dec h it = Some it \<and>
            iterator_post_inc h it = Some (it, it) \<and> iterator_post_dec h it = Some (it, it)"
    by (simp add: iterator_inc_def iterator_dec_def iterator_post_inc_def
        iterator_post_dec_def Let_def)
  have s4: "c_current cit = None \<longrightarrow>
            const_iterator_inc h cit = Some cit \<and> const_iterator_dec h cit = Some cit \<and>
            const_iterator_post_inc h cit = Some (cit, cit) \<and>
            const_iterator_post_dec h cit = Some (cit, cit)"
    by (simp add: const_iterator_inc_def const_iterator_dec_def
        const_iterator_post_inc_def const_iterator_post_dec_def Let_def)
  have s5: "iterator_dec h (begin_it this m) = Some (end_it this) \<and>
         iterator_post_dec h (begin_it this m) = Some (end_it this, begin_it this m) \<and>
         const_iterator_dec h (cbegin this m) = Some (cend this) \<and>
         const_iterator_post_dec h (cbegin this m) = Some (cend this, cbegin this m)"
  proof (cases "head m")
    case None
    then show ?thesis
      by (simp add: iterator_dec_def iterator_post_dec_def const_iterator_dec_def
          const_iterator_post_dec_def begin_it_def end_it_def cbegin_def cend_def Let_def)
  next
    case (Some a)
    from inv_head_prev[OF inv Some] obtain nd where "lookup h a = Some nd" "list_prev nd = None"
      by auto
    with Some show ?thesis
      by (simp add: iterator_dec_def iterator_post_dec_def const_iterator_dec_def
          const_iterator_post_dec_def begin_it_def end_it_def cbegin_def cend_def Let_def)
  qed
  from s1 s2 s3 s4 s5 show ?thesis by blast
qed

theorem iterator_steps_never_fault_witness:
  "well_formed (\<lambda>k. k) (example_heap, example_map) \<and>
   live_node (\<lambda>k. k) (example_heap, example_map) (Some 1) \<and>
   (\<exists>it'. iterator_inc example_heap (iterator (Some 1) (Some 0)) = Some it') \<and>
   (\<exists>it'. iterator_dec example_heap (iterator (Some 1) (Some 0)) = Some it') \<and>
   const_iterator_inc example_heap (cend 0) = Some (cend 0) \<and>
   const_iterator_dec example_heap (cend 0) = Some (cend 0) \<and>
   iterator_dec example_heap (begin_it 0 example_map) = Some (end_it 0)"
proof -
  have a: "current (iterator (Some 1) (Some 0)) = None \<or>
           live_node (\<lambda>k. k) (example_heap, example_map) (current (iterator (Some 1) (Some 0)))"
    using example_live by simp
  have b: "c_current (cend 0) = None \<or>
           live_node (\<lambda>k. k) (example_heap, example_map) (c_current (cend 0))"
    by (simp add: cend_def)
  have c: "c_current (cend 0) = None" by (simp add: cend_def)
  show ?thesis
    using iterator_steps_never_fault[OF example_wf a b, of 0] example_wf example_live c
    by blast
qed

end
